theory Spec2Isabelle
  imports Complex_Main "HOL-Library.Word" "HOL-Library.Log_Nat"
begin

section \<open>Python values used by the pricing calculator\<close>

text \<open>
  A Python \<open>str\<close> is a sequence of Unicode code points, \<open>bytes\<close> a sequence of
  octets. Names that the program only compares with ASCII literals (sanitised file names,
  messages) are plain \<open>string\<close>s.
\<close>

type_synonym pystr = "nat list"
type_synonym byte = "8 word"

definition ascii :: "string \<Rightarrow> pystr" where
  "ascii s = map of_char s"

text \<open>The exceptions the program can meet, with the text that \<open>str(e)\<close> gives.\<close>

datatype error =
    AttributeError string string
  | OverflowError string
  | ValueError string
  | ZeroDivisionError string
  | UnicodeDecodeError string
  | BadRequest string

fun error_str :: "error \<Rightarrow> string" where
  "error_str (AttributeError ty attr) =
     [CHR 0x27] @ ty @ [CHR 0x27] @ '' object has no attribute '' @ [CHR 0x27] @ attr @ [CHR 0x27]"
| "error_str (OverflowError msg) = msg"
| "error_str (ValueError msg) = msg"
| "error_str (ZeroDivisionError msg) = msg"
| "error_str (UnicodeDecodeError msg) = msg"
| "error_str (BadRequest msg) = msg"

definition bind :: "error + 'a \<Rightarrow> ('a \<Rightarrow> error + 'b) \<Rightarrow> error + 'b" where
  "bind m f = (case m of Inl e \<Rightarrow> Inl e | Inr v \<Rightarrow> f v)"

subsection \<open>Binary64 floating point\<close>

text \<open>
  A Python \<open>float\<close> is an IEEE 754 binary64 number. A finite one is the rational it denotes;
  every operation computes the exact rational result and rounds it to the nearest double,
  ties to even (\<open>rnd\<close>). The sign of zero is not kept: no operation of the program
  can observe it.
\<close>

datatype pyfloat = Finite rat | PInf | NInf | NaN

definition ilog2 :: "rat \<Rightarrow> int" where
  \<comment> \<open>\<open>\<lfloor>log\<^sub>2 x\<rfloor>\<close> for \<open>x > 0\<close>\<close>
  "ilog2 x = (if 1 \<le> x then bitlen \<lfloor>x\<rfloor> - 1 else - bitlen (\<lceil>1 / x\<rceil> - 1))"

definition rne :: "rat \<Rightarrow> int" where
  \<comment> \<open>nearest integer, ties to even\<close>
  "rne x = (let f = \<lfloor>x\<rfloor>; r = x - of_int f in
     if r < 1 / 2 then f else if 1 / 2 < r then f + 1 else if even f then f else f + 1)"

definition ulp_exp :: "rat \<Rightarrow> int" where
  \<comment> \<open>exponent of the last place: 53 significant bits, subnormals below \<open>2\<^sup>-\<^sup>1\<^sup>0\<^sup>2\<^sup>2\<close>\<close>
  "ulp_exp x = max (ilog2 \<bar>x\<bar>) (- 1022) - 52"

definition rnd :: "rat \<Rightarrow> rat" where
  "rnd x = (if x = 0 then 0
     else of_int (rne (x / 2 powi ulp_exp x)) * 2 powi ulp_exp x)"

definition to_float :: "rat \<Rightarrow> pyfloat" where
  \<comment> \<open>the result of a hardware operation whose exact value is \<open>x\<close>\<close>
  "to_float x = (let y = rnd x in
     if 2 ^ 1024 \<le> y then PInf else if y \<le> - (2 ^ 1024) then NInf else Finite y)"

fun fmul :: "pyfloat \<Rightarrow> pyfloat \<Rightarrow> pyfloat" where
  "fmul (Finite a) (Finite b) = to_float (a * b)"
| "fmul NaN _ = NaN"
| "fmul _ NaN = NaN"
| "fmul (Finite a) PInf = (if a = 0 then NaN else if 0 < a then PInf else NInf)"
| "fmul (Finite a) NInf = (if a = 0 then NaN else if 0 < a then NInf else PInf)"
| "fmul PInf (Finite b) = (if b = 0 then NaN else if 0 < b then PInf else NInf)"
| "fmul NInf (Finite b) = (if b = 0 then NaN else if 0 < b then NInf else PInf)"
| "fmul PInf PInf = PInf"
| "fmul NInf NInf = PInf"
| "fmul PInf NInf = NInf"
| "fmul NInf PInf = NInf"

fun fadd :: "pyfloat \<Rightarrow> pyfloat \<Rightarrow> pyfloat" where
  "fadd (Finite a) (Finite b) = to_float (a + b)"
| "fadd NaN _ = NaN"
| "fadd _ NaN = NaN"
| "fadd PInf NInf = NaN"
| "fadd NInf PInf = NaN"
| "fadd PInf _ = PInf"
| "fadd NInf _ = NInf"
| "fadd _ PInf = PInf"
| "fadd _ NInf = NInf"

definition float_of_int :: "int \<Rightarrow> error + pyfloat" where
  \<comment> \<open>the conversion Python applies to an \<open>int\<close> operand of a float operation\<close>
  "float_of_int n = (let y = rnd (of_int n) in
     if 2 ^ 1024 \<le> \<bar>y\<bar> then Inl (OverflowError ''int too large to convert to float'')
     else Inr (Finite y))"

definition int_truediv :: "int \<Rightarrow> int \<Rightarrow> error + pyfloat" where
  \<comment> \<open>\<open>a / b\<close> on two \<open>int\<close>s: the correctly rounded quotient\<close>
  "int_truediv a b =
     (if b = 0 then Inl (ZeroDivisionError ''division by zero'')
      else let y = rnd (of_int a / of_int b) in
        if 2 ^ 1024 \<le> \<bar>y\<bar>
        then Inl (OverflowError ''integer division result too large for a float'')
        else Inr (Finite y))"

definition int_mul_float :: "int \<Rightarrow> pyfloat \<Rightarrow> error + pyfloat" where
  "int_mul_float n x = bind (float_of_int n) (\<lambda>f. Inr (fmul f x))"

definition float_mul_int :: "pyfloat \<Rightarrow> int \<Rightarrow> error + pyfloat" where
  "float_mul_int x n = bind (float_of_int n) (\<lambda>f. Inr (fmul x f))"

fun int_of_float :: "pyfloat \<Rightarrow> error + int" where
  \<comment> \<open>\<open>int(x)\<close>: truncation towards zero\<close>
  "int_of_float (Finite x) = Inr (if 0 \<le> x then \<lfloor>x\<rfloor> else \<lceil>x\<rceil>)"
| "int_of_float NaN = Inl (ValueError ''cannot convert float NaN to integer'')"
| "int_of_float _ = Inl (OverflowError ''cannot convert float infinity to integer'')"

definition decimal :: "rat \<Rightarrow> nat \<Rightarrow> rat" where
  \<comment> \<open>the decimal with \<open>nd\<close> places nearest to \<open>x\<close>, ties to even\<close>
  "decimal x nd = of_int (rne (x * 10 ^ nd)) / 10 ^ nd"

definition round_dec :: "rat \<Rightarrow> nat \<Rightarrow> rat" where
  \<comment> \<open>the decimal nearest to the exact value of the double \<open>x\<close>, converted back to the
      nearest double\<close>
  "round_dec x nd = rnd (decimal x nd)"

fun py_round :: "pyfloat \<Rightarrow> nat \<Rightarrow> error + pyfloat" where
  \<comment> \<open>\<open>round(x, ndigits)\<close>\<close>
  "py_round (Finite x) nd = (let y = round_dec x nd in
     if 2 ^ 1024 \<le> \<bar>y\<bar> then Inl (OverflowError ''rounded value too large to represent'')
     else Inr (Finite y))"
| "py_round x nd = Inr x"

section \<open>The pricing table and the estimators\<close>

definition model_id :: string where
  "model_id = ''us.anthropic.claude-sonnet-4-5-20250929-v1:0''"

definition input_price_per_1k :: pyfloat where
  "input_price_per_1k = to_float (3 / 1000)"

definition output_price_per_1k :: pyfloat where
  "output_price_per_1k = to_float (15 / 1000)"

definition REQUESTS_PER_DAY :: int where
  "REQUESTS_PER_DAY = 100"

text \<open>
  \<open>str.strip()\<close> removes the characters that \<open>str.isspace\<close> accepts from both ends.
\<close>

definition is_space :: "nat \<Rightarrow> bool" where
  "is_space c \<longleftrightarrow>
     (9 \<le> c \<and> c \<le> 13) \<or> (28 \<le> c \<and> c \<le> 32) \<or> c = 0x85 \<or> c = 0xA0 \<or> c = 0x1680 \<or>
     (0x2000 \<le> c \<and> c \<le> 0x200A) \<or> c = 0x2028 \<or> c = 0x2029 \<or> c = 0x202F \<or>
     c = 0x205F \<or> c = 0x3000"

definition strip :: "pystr \<Rightarrow> pystr" where
  "strip s = rev (dropWhile is_space (rev (dropWhile is_space s)))"

text \<open>
  Values that reach the program from a parsed JSON body. Only a \<open>str\<close> has the method
  \<open>strip\<close>, only a \<open>dict\<close> the method \<open>get\<close>.
\<close>

datatype json =
    JNull
  | JBool bool
  | JInt int
  | JFloat pyfloat
  | JStr pystr
  | JList "json list"
  | JDict "(pystr \<times> json) list"

fun truthy :: "json \<Rightarrow> bool" where
  "truthy JNull = False"
| "truthy (JBool b) = b"
| "truthy (JInt i) = (i \<noteq> 0)"
| "truthy (JFloat f) = (f \<noteq> Finite 0)"
| "truthy (JStr s) = (s \<noteq> [])"
| "truthy (JList xs) = (xs \<noteq> [])"
| "truthy (JDict kvs) = (kvs \<noteq> [])"

fun type_name :: "json \<Rightarrow> string" where
  "type_name JNull = ''NoneType''"
| "type_name (JBool _) = ''bool''"
| "type_name (JInt _) = ''int''"
| "type_name (JFloat _) = ''float''"
| "type_name (JStr _) = ''str''"
| "type_name (JList _) = ''list''"
| "type_name (JDict _) = ''dict''"

definition estimate_text_tokens :: "json \<Rightarrow> error + int" where
  "estimate_text_tokens text =
     (if \<not> truthy text then Inr 0
      else case text of
        JStr s \<Rightarrow> Inr (max 1 (int (length (strip s)) div 4))
      | _ \<Rightarrow> Inl (AttributeError (type_name text) ''strip''))"

definition estimate_output_tokens :: "int \<Rightarrow> error + int" where
  "estimate_output_tokens input_tokens =
     bind (int_mul_float input_tokens (to_float (6 / 10))) (\<lambda>x.
     bind (int_of_float x) (\<lambda>estimated.
     Inr (max 50 (min estimated 4000))))"

text \<open>
  \<open>bytes.count(sub)\<close> counts the occurrences of \<open>sub\<close> from left to right, without
  overlap; for the empty pattern it returns the length plus one.
\<close>

function bytes_count :: "byte list \<Rightarrow> byte list \<Rightarrow> nat" where
  "bytes_count sub s =
     (if sub = [] then length s + 1
      else if length s < length sub then 0
      else if take (length sub) s = sub then 1 + bytes_count sub (drop (length sub) s)
      else bytes_count sub (tl s))"
  by pat_completeness auto
termination
proof (relation "measure (\<lambda>(sub, s). length s)", goal_cases)
  case 1
  show ?case by simp
next
  case (2 sub s)
  then obtain x xs where "sub = x # xs" by (cases sub) auto
  with \<open>\<not> length s < length sub\<close> show ?case by auto
next
  case (3 sub s)
  then obtain x xs where "sub = x # xs" by (cases sub) auto
  with \<open>\<not> length s < length sub\<close> show ?case by auto
qed

definition page_marker :: "byte list" where
  \<comment> \<open>\<open>b'/Page'\<close>\<close>
  "page_marker = [0x2F, 0x50, 0x61, 0x67, 0x65]"

definition scan_pages :: "byte list option \<Rightarrow> error + nat" where
  \<comment> \<open>\<open>file_content.count(b'/Page')\<close>; \<open>None\<close> stands for an object without that method\<close>
  "scan_pages file_content =
     (case file_content of
        None \<Rightarrow> Inl (AttributeError ''NoneType'' ''count'')
      | Some bs \<Rightarrow> Inr (bytes_count page_marker bs))"

definition count_pdf_pages :: "byte list option \<Rightarrow> int" where
  "count_pdf_pages file_content =
     (case scan_pages file_content of
        Inr pages \<Rightarrow> max 1 (int pages)
      | Inl _ \<Rightarrow> 1)"

text \<open>
  \<open>bytes.decode('utf-8')\<close>: the strict decoder. It rejects stray continuation bytes,
  overlong forms, surrogates and code points above \<open>U+10FFFF\<close>.
\<close>

definition is_cont :: "nat \<Rightarrow> bool" where
  "is_cont b \<longleftrightarrow> 0x80 \<le> b \<and> b \<le> 0xBF"

definition second_ok :: "nat \<Rightarrow> nat \<Rightarrow> bool" where
  \<comment> \<open>the range of the second byte after the lead byte \<open>b0\<close>\<close>
  "second_ok b0 b1 \<longleftrightarrow>
     (if b0 = 0xE0 then 0xA0 \<le> b1 \<and> b1 \<le> 0xBF
      else if b0 = 0xED then 0x80 \<le> b1 \<and> b1 \<le> 0x9F
      else if b0 = 0xF0 then 0x90 \<le> b1 \<and> b1 \<le> 0xBF
      else if b0 = 0xF4 then 0x80 \<le> b1 \<and> b1 \<le> 0x8F
      else is_cont b1)"

fun utf8 :: "nat list \<Rightarrow> pystr option" where
  "utf8 [] = Some []"
| "utf8 (b0 # bs) =
     (if b0 < 0x80 then map_option ((#) b0) (utf8 bs)
      else if 0xC2 \<le> b0 \<and> b0 \<le> 0xDF then
        (case bs of
           b1 # r \<Rightarrow>
             if is_cont b1
             then map_option ((#) ((b0 - 0xC0) * 64 + (b1 - 0x80))) (utf8 r)
             else None
         | _ \<Rightarrow> None)
      else if 0xE0 \<le> b0 \<and> b0 \<le> 0xEF then
        (case bs of
           b1 # b2 # r \<Rightarrow>
             if second_ok b0 b1 \<and> is_cont b2
             then map_option
               ((#) ((b0 - 0xE0) * 4096 + (b1 - 0x80) * 64 + (b2 - 0x80))) (utf8 r)
             else None
         | _ \<Rightarrow> None)
      else if 0xF0 \<le> b0 \<and> b0 \<le> 0xF4 then
        (case bs of
           b1 # b2 # b3 # r \<Rightarrow>
             if second_ok b0 b1 \<and> is_cont b2 \<and> is_cont b3
             then map_option
               ((#) ((b0 - 0xF0) * 262144 + (b1 - 0x80) * 4096 + (b2 - 0x80) * 64 + (b3 - 0x80)))
               (utf8 r)
             else None
         | _ \<Rightarrow> None)
      else None)"

definition decode :: "byte list \<Rightarrow> error + pystr" where
  "decode content =
     (case utf8 (map unat content) of
        Some text \<Rightarrow> Inr text
      | None \<Rightarrow> Inl (UnicodeDecodeError ''invalid utf-8''))"

section \<open>Uploaded files\<close>

record upload =
  filename :: pystr
  content :: "byte list"

record breakdown =
  text_tokens :: int
  image_tokens :: int
  document_tokens :: int

definition lower :: "string \<Rightarrow> string" where
  \<comment> \<open>\<open>str.lower()\<close> on the ASCII text that \<open>secure_filename\<close> returns\<close>
  "lower s = map (\<lambda>c. if 65 \<le> (of_char c :: nat) \<and> (of_char c :: nat) \<le> 90
                        then char_of (of_char c + (32 :: nat)) else c) s"

definition endswith :: "string \<Rightarrow> string \<Rightarrow> bool" where
  "endswith s suf \<longleftrightarrow> length suf \<le> length s \<and> drop (length s - length suf) s = suf"

definition image_exts :: "string list" where
  "image_exts = [''.jpg'', ''.jpeg'', ''.png'', ''.gif'', ''.webp'']"

text \<open>
  One round of the loop of \<open>process_files\<close>. The sanitiser \<open>secure_filename\<close> belongs
  to the web framework and is a parameter here; it returns ASCII text.
\<close>

definition process_file :: "(pystr \<Rightarrow> string) \<Rightarrow> breakdown \<Rightarrow> upload \<Rightarrow> breakdown" where
  "process_file secure_filename acc file =
     (let name = lower (secure_filename (filename file));
          bytes = content file in
      if list_ex (endswith name) image_exts
      then acc\<lparr>image_tokens := image_tokens acc + 1600\<rparr>
      else if endswith name ''.pdf''
      then acc\<lparr>document_tokens := document_tokens acc + count_pdf_pages (Some bytes) * 500\<rparr>
      else if endswith name ''.txt''
      then (case bind (decode bytes) (\<lambda>text. estimate_text_tokens (JStr text)) of
              Inr n \<Rightarrow> acc\<lparr>text_tokens := text_tokens acc + n\<rparr>
            | Inl _ \<Rightarrow> acc\<lparr>text_tokens := text_tokens acc + int (length bytes) div 4\<rparr>)
      else acc)"

definition no_tokens :: breakdown where
  "no_tokens = \<lparr>text_tokens = 0, image_tokens = 0, document_tokens = 0\<rparr>"

definition process_files :: "(pystr \<Rightarrow> string) \<Rightarrow> upload list \<Rightarrow> breakdown" where
  "process_files secure_filename fs = foldl (process_file secure_filename) no_tokens fs"

text \<open>
  What \<open>secure_filename\<close> of werkzeug does on a POSIX host: the name is put in the normal
  form NFKD and its characters beyond ASCII are dropped, \<open>/\<close> becomes a blank, the words
  between white space are joined by \<open>_\<close>, every character other than a letter, a digit,
  \<open>_\<close>, \<open>.\<close> and \<open>-\<close> is removed, and dots and underscores are stripped from both
  ends. The normal form is a table of the Unicode database and a parameter \<open>nfkd\<close> here;
  it leaves ASCII characters and the unified CJK ideographs as they are.
\<close>

fun split_words :: "pystr \<Rightarrow> pystr \<Rightarrow> pystr list" where
  \<comment> \<open>\<open>str.split()\<close>, the word being read in the first argument\<close>
  "split_words w [] = (if w = [] then [] else [w])"
| "split_words w (c # cs) =
     (if is_space c then (if w = [] then split_words [] cs else w # split_words [] cs)
      else split_words (w @ [c]) cs)"

fun join :: "pystr \<Rightarrow> pystr list \<Rightarrow> pystr" where
  "join sep [] = []"
| "join sep [w] = w"
| "join sep (w # v # ws) = w @ sep @ join sep (v # ws)"

definition filename_char :: "nat \<Rightarrow> bool" where
  \<comment> \<open>the characters that the pattern \<open>[^A-Za-z0-9_.-]\<close> does not match\<close>
  "filename_char c \<longleftrightarrow>
     (65 \<le> c \<and> c \<le> 90) \<or> (97 \<le> c \<and> c \<le> 122) \<or> (48 \<le> c \<and> c \<le> 57) \<or>
     c = 95 \<or> c = 46 \<or> c = 45"

definition strip_chars :: "pystr \<Rightarrow> pystr \<Rightarrow> pystr" where
  \<comment> \<open>\<open>s.strip(cs)\<close>\<close>
  "strip_chars cs s = rev (dropWhile (\<lambda>c. c \<in> set cs) (rev (dropWhile (\<lambda>c. c \<in> set cs) s)))"

definition werkzeug_secure_filename :: "(pystr \<Rightarrow> pystr) \<Rightarrow> pystr \<Rightarrow> string" where
  "werkzeug_secure_filename nfkd name =
     (let a = filter (\<lambda>c. c < 128) (nfkd name);
          b = map (\<lambda>c. if c = 47 then 32 else c) a;
          c = filter filename_char (join [95] (split_words [] b))
      in map char_of (strip_chars [46, 95] c))"

section \<open>Cost\<close>

record cost_breakdown =
  cost_input :: pyfloat
  cost_output :: pyfloat
  total_per_request :: pyfloat
  weekly_estimate :: pyfloat
  monthly_estimate :: pyfloat

definition calculate_cost :: "int \<Rightarrow> int \<Rightarrow> error + cost_breakdown" where
  "calculate_cost input_tokens output_tokens =
     bind (int_truediv input_tokens 1000) (\<lambda>a.
     let input_cost = fmul a input_price_per_1k in
     bind (int_truediv output_tokens 1000) (\<lambda>b.
     let output_cost = fmul b output_price_per_1k;
         total_cost = fadd input_cost output_cost in
     bind (float_mul_int total_cost REQUESTS_PER_DAY) (\<lambda>daily_cost.
     bind (float_mul_int daily_cost 7) (\<lambda>weekly_cost.
     bind (float_mul_int daily_cost 30) (\<lambda>monthly_cost.
     bind (py_round input_cost 6) (\<lambda>r1.
     bind (py_round output_cost 6) (\<lambda>r2.
     bind (py_round total_cost 6) (\<lambda>r3.
     bind (py_round weekly_cost 4) (\<lambda>r4.
     bind (py_round monthly_cost 4) (\<lambda>r5.
     Inr \<lparr>cost_input = r1, cost_output = r2, total_per_request = r3,
          weekly_estimate = r4, monthly_estimate = r5\<rparr>))))))))))"

section \<open>The request handler\<close>

text \<open>
  What the handler reads of a request: the multi-dict of uploaded parts, whether the body
  is JSON, the parsed JSON body (or the exception raised by parsing it) and the multi-dict
  of form fields. A \<open>dict\<close> is the list of its items, a multi-dict the list of its pairs
  in order; \<open>get\<close> returns the first value of a key.
\<close>

record request =
  files :: "(pystr \<times> upload) list"
  is_json :: bool
  json :: "error + json"
  form :: "(pystr \<times> pystr) list"

record result =
  res_model_id :: string
  tokens_input :: int
  tokens_output :: int
  tokens_breakdown :: breakdown
  cost :: cost_breakdown
  pricing_input :: pyfloat
  pricing_output :: pyfloat

text \<open>
  The JSON object of the response, \<open>{'success': True, ...}\<close> or
  \<open>{'success': False, 'error': ...}\<close>, and the HTTP status.
\<close>

datatype body = Success result | Failure string

type_synonym response = "body \<times> nat"

definition getlist :: "pystr \<Rightarrow> (pystr \<times> 'a) list \<Rightarrow> 'a list" where
  "getlist k kvs = map snd (filter (\<lambda>kv. fst kv = k) kvs)"

definition dict_get :: "(pystr \<times> 'a) list \<Rightarrow> pystr \<Rightarrow> 'a \<Rightarrow> 'a" where
  "dict_get kvs k dflt = (case map_of kvs k of None \<Rightarrow> dflt | Some v \<Rightarrow> v)"

definition from_files :: "(pystr \<Rightarrow> string) \<Rightarrow> request \<Rightarrow> breakdown" where
  \<comment> \<open>lines 121 to 129: the uploaded parts with a file name\<close>
  "from_files secure_filename req =
     (if files req \<noteq> [] \<and> ascii ''files'' \<in> fst ` set (files req)
      then let fs = getlist (ascii ''files'') (files req);
               valid_files = filter (\<lambda>f. filename f \<noteq> []) fs
           in if valid_files \<noteq> [] then process_files secure_filename valid_files
              else no_tokens
      else no_tokens)"

definition set_text :: "json \<Rightarrow> breakdown \<Rightarrow> error + breakdown" where
  \<comment> \<open>\<open>if text_input: breakdown['text_tokens'] = estimate_text_tokens(text_input)\<close>\<close>
  "set_text text_input bd =
     (if truthy text_input
      then bind (estimate_text_tokens text_input) (\<lambda>n. Inr (bd\<lparr>text_tokens := n\<rparr>))
      else Inr bd)"

definition with_text :: "request \<Rightarrow> breakdown \<Rightarrow> error + breakdown" where
  \<comment> \<open>lines 131 to 140: the text of a JSON body, else of a form\<close>
  "with_text req bd =
     (if is_json req then
        bind (json req) (\<lambda>data.
          case data of
            JDict kvs \<Rightarrow> set_text (dict_get kvs (ascii ''text_input'') (JStr [])) bd
          | _ \<Rightarrow> Inl (AttributeError (type_name data) ''get''))
      else if form req \<noteq> [] then
        set_text (JStr (dict_get (form req) (ascii ''text_input'') [])) bd
      else Inr bd)"

definition total_input_tokens :: "breakdown \<Rightarrow> int" where
  "total_input_tokens bd = text_tokens bd + image_tokens bd + document_tokens bd"

definition respond :: "breakdown \<Rightarrow> error + response" where
  \<comment> \<open>lines 142 to 174\<close>
  "respond bd =
     (if total_input_tokens bd = 0
      then Inr (Failure ''Please enter a prompt or upload files'', 400)
      else
        bind (estimate_output_tokens (total_input_tokens bd)) (\<lambda>output_tokens.
        bind (calculate_cost (total_input_tokens bd) output_tokens) (\<lambda>c.
        Inr (Success \<lparr>res_model_id = model_id,
                       tokens_input = total_input_tokens bd,
                       tokens_output = output_tokens,
                       tokens_breakdown = bd,
                       cost = c,
                       pricing_input = input_price_per_1k,
                       pricing_output = output_price_per_1k\<rparr>, 200))))"

definition calculate :: "(pystr \<Rightarrow> string) \<Rightarrow> request \<Rightarrow> response" where
  "calculate secure_filename req =
     (case bind (with_text req (from_files secure_filename req)) respond of
        Inr r \<Rightarrow> r
      | Inl e \<Rightarrow> (Failure (''Server error: '' @ error_str e), 500))"

section \<open>Notions of the specification\<close>

text \<open>
  The number of positions of \<open>s\<close> at which \<open>sub\<close> occurs, overlapping or not.
\<close>

definition occurrences :: "byte list \<Rightarrow> byte list \<Rightarrow> nat" where
  "occurrences sub s = length (filter (\<lambda>i. take (length sub) (drop i s) = sub) [0..<length s])"

text \<open>
  The request carries the text \<open>t\<close> in the field \<open>text_input\<close>: of the JSON object when
  the body is JSON, of the form otherwise.
\<close>

definition supplied_text :: "request \<Rightarrow> pystr \<Rightarrow> bool" where
  "supplied_text req t \<longleftrightarrow>
     (if is_json req
      then (case json req of
              Inr (JDict kvs) \<Rightarrow> map_of kvs (ascii ''text_input'') = Some (JStr t)
            | _ \<Rightarrow> False)
      else map_of (form req) (ascii ''text_input'') = Some t)"

text \<open>No category of a breakdown is negative.\<close>

definition nonneg :: "breakdown \<Rightarrow> bool" where
  "nonneg bd \<longleftrightarrow> 0 \<le> text_tokens bd \<and> 0 \<le> image_tokens bd \<and> 0 \<le> document_tokens bd"

text \<open>
  The output estimate as the specification words it, \<open>clamp(round(input_tokens * 0.6), 50, 4000)\<close>,
  in exact arithmetic.
\<close>

definition spec_estimate_output_tokens :: "int \<Rightarrow> int" where
  "spec_estimate_output_tokens input_tokens =
     max 50 (min (rne (of_int input_tokens * (6 / 10))) 4000)"

text \<open>
  The cost fields as the specification words them, in exact arithmetic: a rate applied to
  thousands of tokens, the sum of the two unrounded costs, that sum times 100 times 7 (or
  30), each rounded to its decimal places; the field is the double nearest to that decimal.
\<close>

definition exact_total :: "int \<Rightarrow> int \<Rightarrow> rat" where
  "exact_total input_tokens output_tokens =
     of_int input_tokens / 1000 * (3 / 1000) + of_int output_tokens / 1000 * (15 / 1000)"

definition exact_cost :: "int \<Rightarrow> int \<Rightarrow> cost_breakdown" where
  "exact_cost input_tokens output_tokens =
     \<lparr>cost_input = Finite (rnd (decimal (of_int input_tokens / 1000 * (3 / 1000)) 6)),
      cost_output = Finite (rnd (decimal (of_int output_tokens / 1000 * (15 / 1000)) 6)),
      total_per_request = Finite (rnd (decimal (exact_total input_tokens output_tokens) 6)),
      weekly_estimate =
        Finite (rnd (decimal (exact_total input_tokens output_tokens * 100 * 7) 4)),
      monthly_estimate =
        Finite (rnd (decimal (exact_total input_tokens output_tokens * 100 * 30) 4))\<rparr>"

text \<open>
  The \<open>input\<close> field of \<open>calculate_cost(x, estimate_output_tokens(x))\<close>.
\<close>

definition reported_input_cost :: "int \<Rightarrow> error + pyfloat" where
  "reported_input_cost x =
     bind (estimate_output_tokens x) (\<lambda>output_tokens.
     bind (calculate_cost x output_tokens) (\<lambda>c. Inr (cost_input c)))"

text \<open>
  \<open>approx k a x\<close>: the double \<open>a\<close> is the exact value \<open>x \<ge> 0\<close> up to \<open>k\<close> roundings,
  each of relative error at most \<open>2\<^sup>-\<^sup>5\<^sup>3\<close>. \<open>sized x\<close>: the exact value \<open>x\<close> is zero or
  lies well inside the range of normal doubles.
\<close>

definition approx :: "nat \<Rightarrow> rat \<Rightarrow> rat \<Rightarrow> bool" where
  "approx k a x \<longleftrightarrow> 0 \<le> x \<and> \<bar>a - x\<bar> \<le> ((1 + 1 / 2 ^ 53) ^ k - 1) * x"

definition sized :: "rat \<Rightarrow> bool" where
  "sized x \<longleftrightarrow> (x = 0 \<or> 1 / 2 ^ 30 \<le> x) \<and> x \<le> 2 ^ 100"

text \<open>
  The values of the local variables of \<open>calculate_cost\<close> when no operation overflows.
\<close>

definition input_cost_value :: "int \<Rightarrow> rat" where
  "input_cost_value n = rnd (rnd (of_int n / 1000) * rnd (3 / 1000))"

definition output_cost_value :: "int \<Rightarrow> rat" where
  "output_cost_value m = rnd (rnd (of_int m / 1000) * rnd (15 / 1000))"

definition total_cost_value :: "int \<Rightarrow> int \<Rightarrow> rat" where
  "total_cost_value n m = rnd (input_cost_value n + output_cost_value m)"

definition daily_cost_value :: "int \<Rightarrow> int \<Rightarrow> rat" where
  "daily_cost_value n m = rnd (total_cost_value n m * 100)"

definition weekly_cost_value :: "int \<Rightarrow> int \<Rightarrow> rat" where
  "weekly_cost_value n m = rnd (daily_cost_value n m * 7)"

definition monthly_cost_value :: "int \<Rightarrow> int \<Rightarrow> rat" where
  "monthly_cost_value n m = rnd (daily_cost_value n m * 30)"

section \<open>Basic facts\<close>

lemma bind_Inl [simp]: "bind (Inl e) f = Inl e"
  by (simp add: bind_def)

lemma bind_Inr [simp]: "bind (Inr v) f = f v"
  by (simp add: bind_def)

declare bytes_count.simps [simp del]

lemma occurrences_Nil [simp]: "occurrences sub [] = 0"
  by (simp add: occurrences_def)

lemma occurrences_Cons:
  "occurrences sub (x # xs) =
     (if take (length sub) (x # xs) = sub then 1 else 0) + occurrences sub xs"
proof -
  have "[0..<length (x # xs)] = 0 # map Suc [0..<length xs]"
    by (simp add: upt_conv_Cons map_Suc_upt del: upt_Suc)
  then show ?thesis
    by (simp add: occurrences_def filter_map o_def del: upt_Suc)
qed

lemma occurrences_short: "length s < length sub \<Longrightarrow> occurrences sub s = 0"
proof (induction s)
  case Nil
  then show ?case by simp
next
  case (Cons x xs)
  have "length (take (length sub) (x # xs)) < length sub"
    using Cons.prems by simp
  then have "take (length sub) (x # xs) \<noteq> sub"
    by auto
  with Cons show ?case by (simp add: occurrences_Cons)
qed

lemma occurrences_marker:
  "occurrences page_marker (0x2F # 0x50 # 0x61 # 0x67 # 0x65 # r) = 1 + occurrences page_marker r"
  by (simp add: occurrences_Cons page_marker_def)

lemma page_marker_length: "length page_marker = 5"
  by (simp add: page_marker_def)

lemma page_marker_not_Nil: "page_marker \<noteq> []"
  by (simp add: page_marker_def)

lemma bytes_count_marker: "bytes_count page_marker s = occurrences page_marker s"
proof (induction s rule: length_induct)
  case (1 s)
  show ?case
  proof (cases "length s < length page_marker")
    case True
    then show ?thesis
      by (subst bytes_count.simps) (simp add: occurrences_short page_marker_not_Nil)
  next
    case long: False
    show ?thesis
    proof (cases "take (length page_marker) s = page_marker")
      case True
      define r where "r = drop (length page_marker) s"
      have "s = page_marker @ r"
        using True append_take_drop_id [of "length page_marker" s] by (simp add: r_def)
      then have s: "s = 0x2F # 0x50 # 0x61 # 0x67 # 0x65 # r"
        by (simp add: page_marker_def)
      have "bytes_count page_marker s = 1 + bytes_count page_marker r"
        using long True by (subst bytes_count.simps) (simp add: page_marker_not_Nil r_def)
      also have "bytes_count page_marker r = occurrences page_marker r"
        using 1 by (simp add: s)
      finally show ?thesis
        by (simp add: s occurrences_marker)
    next
      case False
      from long obtain x xs where s: "s = x # xs"
        by (cases s) (auto simp: page_marker_length)
      have "bytes_count page_marker s = bytes_count page_marker (tl s)"
        using long False by (subst bytes_count.simps) (simp add: page_marker_not_Nil)
      also have "\<dots> = occurrences page_marker xs"
        using 1 by (simp add: s)
      finally show ?thesis
        using False by (simp add: s occurrences_Cons)
    qed
  qed
qed

lemma endswith_iff: "endswith s suf \<longleftrightarrow> (\<exists>p. s = p @ suf)"
proof
  assume "endswith s suf"
  then have "s = take (length s - length suf) s @ suf"
    by (metis append_take_drop_id endswith_def)
  then show "\<exists>p. s = p @ suf" ..
next
  assume "\<exists>p. s = p @ suf"
  then show "endswith s suf"
    by (auto simp: endswith_def)
qed

lemma pdf_not_image: "endswith name ''.pdf'' \<Longrightarrow> \<not> list_ex (endswith name) image_exts"
  by (auto simp: endswith_iff image_exts_def append_eq_append_conv2 append_eq_Cons_conv Cons_eq_append_conv)

lemma supplied_text_with_text:
  assumes "supplied_text req t"
  shows "with_text req bd = set_text (JStr t) bd"
proof (cases "is_json req")
  case True
  with assms obtain kvs where "json req = Inr (JDict kvs)"
    and "map_of kvs (ascii ''text_input'') = Some (JStr t)"
    by (auto simp: supplied_text_def split: sum.splits json.splits)
  with True show ?thesis
    by (simp add: with_text_def dict_get_def)
next
  case False
  with assms have m: "map_of (form req) (ascii ''text_input'') = Some t"
    by (simp add: supplied_text_def)
  then have "form req \<noteq> []" by auto
  with False m show ?thesis
    by (simp add: with_text_def dict_get_def)
qed

lemma process_file_add:
  "process_file sf acc f =
     \<lparr>text_tokens = text_tokens acc + text_tokens (process_file sf no_tokens f),
      image_tokens = image_tokens acc + image_tokens (process_file sf no_tokens f),
      document_tokens = document_tokens acc + document_tokens (process_file sf no_tokens f)\<rparr>"
  by (simp add: process_file_def no_tokens_def Let_def split: sum.splits)

lemma foldl_process_file:
  "foldl (process_file sf) acc fs =
     \<lparr>text_tokens = text_tokens acc + (\<Sum>f\<leftarrow>fs. text_tokens (process_file sf no_tokens f)),
      image_tokens = image_tokens acc + (\<Sum>f\<leftarrow>fs. image_tokens (process_file sf no_tokens f)),
      document_tokens = document_tokens acc + (\<Sum>f\<leftarrow>fs. document_tokens (process_file sf no_tokens f))\<rparr>"
proof (induction fs arbitrary: acc)
  case Nil
  show ?case by simp
next
  case (Cons f fs)
  show ?case
    by (simp add: Cons.IH [of "process_file sf acc f"])
      (subst process_file_add, simp add: add.assoc)+
qed

lemma process_files_sum:
  "process_files sf fs =
     \<lparr>text_tokens = (\<Sum>f\<leftarrow>fs. text_tokens (process_file sf no_tokens f)),
      image_tokens = (\<Sum>f\<leftarrow>fs. image_tokens (process_file sf no_tokens f)),
      document_tokens = (\<Sum>f\<leftarrow>fs. document_tokens (process_file sf no_tokens f))\<rparr>"
  by (simp add: process_files_def foldl_process_file) (simp add: no_tokens_def)

lemma from_files_eq:
  "from_files sf req =
     process_files sf (filter (\<lambda>f. filename f \<noteq> []) (getlist (ascii ''files'') (files req)))"
proof -
  have "getlist k kvs = []" if "k \<notin> fst ` set kvs" for k :: pystr and kvs :: "(pystr \<times> upload) list"
    using that by (induction kvs) (auto simp: getlist_def)
  then show ?thesis
    by (auto simp: from_files_def Let_def process_files_def)
qed

lemma estimate_text_tokens_nonneg: "estimate_text_tokens v = Inr n \<Longrightarrow> 0 \<le> n"
  by (auto simp: estimate_text_tokens_def split: if_splits json.splits)

lemma count_pdf_pages_pos: "0 < count_pdf_pages c"
  by (auto simp: count_pdf_pages_def split: sum.splits)

lemma process_file_nonneg: "nonneg acc \<Longrightarrow> nonneg (process_file sf acc f)"
  using count_pdf_pages_pos [of "Some (content f)"]
  by (auto simp: nonneg_def process_file_def Let_def bind_def
      dest: estimate_text_tokens_nonneg split: sum.splits)

lemma process_files_nonneg: "nonneg (process_files sf fs)"
proof -
  have "nonneg (foldl (process_file sf) acc fs)" if "nonneg acc" for acc
    using that by (induction fs arbitrary: acc) (simp_all add: process_file_nonneg)
  then show ?thesis
    by (simp add: process_files_def nonneg_def no_tokens_def)
qed

lemma from_files_nonneg: "nonneg (from_files sf req)"
  by (simp add: from_files_eq process_files_nonneg)

lemma set_text_nonneg: "set_text v bd = Inr bd' \<Longrightarrow> nonneg bd \<Longrightarrow> nonneg bd'"
  by (auto simp: set_text_def nonneg_def bind_def
      dest: estimate_text_tokens_nonneg split: if_splits sum.splits)

lemma with_text_nonneg: "with_text req bd = Inr bd' \<Longrightarrow> nonneg bd \<Longrightarrow> nonneg bd'"
  by (auto simp: with_text_def bind_def dest: set_text_nonneg
      split: if_splits sum.splits json.splits)

lemma respond_status:
  "respond bd = Inr r \<Longrightarrow> total_input_tokens bd \<noteq> 0 \<Longrightarrow> snd r = 200 \<and> (\<exists>res. fst r = Success res \<and> tokens_breakdown res = bd)"
  by (auto simp: respond_def bind_def split: sum.splits)

lemma calculate_eq:
  "with_text req (from_files sf req) = Inr bd \<Longrightarrow>
     calculate sf req =
       (case respond bd of Inr r \<Rightarrow> r
        | Inl e \<Rightarrow> (Failure (''Server error: '' @ error_str e), 500))"
  by (simp add: calculate_def)

lemma calculate_Success:
  assumes "with_text req (from_files sf req) = Inr bd"
    and "calculate sf req = (Success r, st)"
  shows "tokens_breakdown r = bd"
proof (cases "respond bd")
  case (Inl e)
  with assms show ?thesis
    by (simp add: calculate_eq)
next
  case (Inr x)
  with assms have x: "x = (Success r, st)"
    by (simp add: calculate_eq)
  have "total_input_tokens bd \<noteq> 0"
    using Inr x by (auto simp: respond_def)
  from respond_status [OF Inr this] x show ?thesis
    by simp
qed

section \<open>Rounding to the nearest double\<close>

subsection \<open>Logarithm and nearest integer\<close>

lemma powi_nonneg: "0 \<le> k \<Longrightarrow> (2::rat) powi k = 2 ^ nat k"
  by (simp add: power_int_def)

lemma powi_neg: "0 \<le> k \<Longrightarrow> (2::rat) powi (- k) = 1 / 2 ^ nat k"
  by (simp add: power_int_minus powi_nonneg divide_inverse)

lemma ilog2_bounds:
  assumes "0 < x"
  shows "2 powi ilog2 x \<le> x" and "x < 2 powi (ilog2 x + 1)"
proof -
  have "2 powi ilog2 x \<le> x \<and> x < 2 powi (ilog2 x + 1)"
  proof (cases "1 \<le> x")
    case True
    define n where "n = \<lfloor>x\<rfloor>"
    have "1 \<le> n"
      using True by (simp add: n_def le_floor_iff)
    moreover have "of_int n \<le> x"
      unfolding n_def by linarith
    moreover have "x < of_int n + 1"
      unfolding n_def by linarith
    ultimately have n: "1 \<le> n" "of_int n \<le> x" "x < of_int n + 1"
      by simp_all
    then have b: "2 ^ nat (bitlen n - 1) \<le> n" "n < 2 ^ nat (bitlen n)"
      using bitlen_bounds [of n] by simp_all
    have pos: "1 \<le> bitlen n"
      using n(1) bitlen_nonneg [of n] bitlen_eq_zero_iff [of n] by linarith
    have e: "ilog2 x = bitlen n - 1"
      using True by (simp add: ilog2_def n_def)
    have "(2::rat) powi (bitlen n - 1) = of_int (2 ^ nat (bitlen n - 1))"
      using pos by (simp add: power_int_def)
    also have "\<dots> \<le> of_int n"
      using b(1) by (simp only: of_int_le_iff)
    finally have lo: "2 powi ilog2 x \<le> x"
      using n(2) e by simp
    have "n + 1 \<le> 2 ^ nat (bitlen n)"
      using b(2) by simp
    then have "(of_int (n + 1) :: rat) \<le> of_int (2 ^ nat (bitlen n))"
      by (simp only: of_int_le_iff)
    also have "(of_int (2 ^ nat (bitlen n)) :: rat) = 2 powi (bitlen n)"
      using pos by (simp add: power_int_def)
    finally have "x < 2 powi (ilog2 x + 1)"
      using n(3) e by simp
    with lo show ?thesis ..
  next
    case False
    define c where "c = \<lceil>1 / x\<rceil>"
    define m where "m = c - 1"
    have inv: "1 < 1 / x"
      using False assms by (simp add: field_simps)
    have "1 / x \<le> of_int c"
      unfolding c_def by linarith
    moreover have "of_int c - 1 < 1 / x"
      unfolding c_def by linarith
    ultimately have c: "1 / x \<le> of_int c" "of_int c - 1 < 1 / x"
      by simp_all
    have m: "1 \<le> m"
      using inv c(1) by (simp add: m_def)
    then have b: "2 ^ nat (bitlen m - 1) \<le> m" "m < 2 ^ nat (bitlen m)"
      using bitlen_bounds [of m] by simp_all
    have pos: "1 \<le> bitlen m"
      using m bitlen_nonneg [of m] bitlen_eq_zero_iff [of m] by linarith
    have e: "ilog2 x = - bitlen m"
      using False by (simp add: ilog2_def m_def c_def)
    have "(2::rat) powi ilog2 x = 2 powi (- bitlen m)"
      by (simp only: e)
    also have "\<dots> = 1 / 2 ^ nat (bitlen m)"
      using pos by (intro powi_neg) simp
    finally have p1: "(2::rat) powi ilog2 x = 1 / of_int (2 ^ nat (bitlen m))"
      by simp
    have "ilog2 x + 1 = - (bitlen m - 1)"
      by (simp add: e)
    then have "(2::rat) powi (ilog2 x + 1) = 2 powi (- (bitlen m - 1))"
      by (simp only:)
    also have "\<dots> = 1 / 2 ^ nat (bitlen m - 1)"
      using pos by (intro powi_neg) simp
    finally have p2: "(2::rat) powi (ilog2 x + 1) = 1 / of_int (2 ^ nat (bitlen m - 1))"
      by simp
    have "c \<le> 2 ^ nat (bitlen m)"
      using b(2) by (simp add: m_def)
    then have "(of_int c :: rat) \<le> of_int (2 ^ nat (bitlen m))"
      by (simp only: of_int_le_iff)
    with c(1) have "1 / x \<le> of_int (2 ^ nat (bitlen m))"
      by linarith
    then have "1 / of_int (2 ^ nat (bitlen m)) \<le> x"
      using assms by (simp add: field_simps)
    then have lo: "2 powi ilog2 x \<le> x"
      by (simp only: p1)
    have "(of_int (2 ^ nat (bitlen m - 1)) :: rat) \<le> of_int m"
      using b(1) by (simp only: of_int_le_iff)
    with c(2) have "of_int (2 ^ nat (bitlen m - 1)) < 1 / x"
      by (simp add: m_def)
    then have "x < 1 / of_int (2 ^ nat (bitlen m - 1))"
      using assms by (simp add: field_simps)
    then have "x < 2 powi (ilog2 x + 1)"
      by (simp only: p2)
    with lo show ?thesis ..
  qed
  then show "2 powi ilog2 x \<le> x" and "x < 2 powi (ilog2 x + 1)"
    by simp_all
qed

lemma two_powi_mono: "a \<le> b \<Longrightarrow> (2::rat) powi a \<le> 2 powi b"
  by (rule power_int_increasing) simp_all

lemma two_powi_pos: "0 < (2::rat) powi a"
  by simp

lemma ilog2_unique:
  assumes "0 < x" and "2 powi e \<le> x" and "x < 2 powi (e + 1)"
  shows "ilog2 x = e"
proof (rule antisym)
  show "ilog2 x \<le> e"
  proof (rule ccontr)
    assume "\<not> ilog2 x \<le> e"
    then have "e + 1 \<le> ilog2 x" by simp
    then have "(2::rat) powi (e + 1) \<le> 2 powi ilog2 x"
      by (rule two_powi_mono)
    with ilog2_bounds(1) [OF assms(1)] assms(3) show False by linarith
  qed
  show "e \<le> ilog2 x"
  proof (rule ccontr)
    assume "\<not> e \<le> ilog2 x"
    then have "ilog2 x + 1 \<le> e" by simp
    then have "(2::rat) powi (ilog2 x + 1) \<le> 2 powi e"
      by (rule two_powi_mono)
    with ilog2_bounds(2) [OF assms(1)] assms(2) show False by linarith
  qed
qed

lemma rne_error: "\<bar>of_int (rne x) - x\<bar> \<le> 1 / 2"
proof -
  have "of_int \<lfloor>x\<rfloor> \<le> x" and "x < of_int \<lfloor>x\<rfloor> + 1"
    by linarith+
  then show ?thesis
    by (auto simp: rne_def Let_def abs_le_iff)
qed

lemma rne_near:
  assumes "\<bar>x - of_int k\<bar> < 1 / 2"
  shows "rne x = k"
proof -
  have "\<bar>(of_int (rne x) :: rat) - of_int k\<bar> < 1"
    using rne_error [of x] assms by linarith
  then have "\<bar>of_int (rne x - k) :: rat\<bar> < 1"
    by simp
  then have "\<bar>rne x - k\<bar> < 1"
    by (metis of_int_abs of_int_less_1_iff)
  then show ?thesis by simp
qed

lemma rne_of_int [simp]: "rne (of_int k) = k"
  by (rule rne_near) simp

subsection \<open>The rounding function\<close>

lemma rnd_0 [simp]: "rnd 0 = 0"
  by (simp add: rnd_def)

lemma ilog2_normal:
  assumes "2 powi (- 1022) \<le> \<bar>x\<bar>"
  shows "- 1022 \<le> ilog2 \<bar>x\<bar>"
proof (rule ccontr)
  assume "\<not> - 1022 \<le> ilog2 \<bar>x\<bar>"
  then have "ilog2 \<bar>x\<bar> + 1 \<le> - 1022" by simp
  then have "(2::rat) powi (ilog2 \<bar>x\<bar> + 1) \<le> 2 powi (- 1022)"
    by (rule two_powi_mono)
  moreover have "0 < \<bar>x\<bar>"
    using assms two_powi_pos [of "- 1022"] by linarith
  ultimately show False
    using ilog2_bounds(2) [of "\<bar>x\<bar>"] assms by linarith
qed

lemma rnd_normal:
  assumes "2 powi (- 1022) \<le> \<bar>x\<bar>"
  shows "rnd x = of_int (rne (x / 2 powi (ilog2 \<bar>x\<bar> - 52))) * 2 powi (ilog2 \<bar>x\<bar> - 52)"
proof -
  have "x \<noteq> 0"
    using assms two_powi_pos [of "- 1022"] by auto
  then show ?thesis
    using ilog2_normal [OF assms] by (simp add: rnd_def ulp_exp_def max_def)
qed

lemma powi_diff_53: "(2::rat) powi (e - 52) / 2 = 2 powi e / 2 ^ 53"
proof -
  have "(2::rat) powi (e - 52) = 2 powi e / 2 powi 52"
    by (rule power_int_diff) simp
  then show ?thesis by simp
qed

lemma rnd_error:
  assumes "2 powi (- 1022) \<le> \<bar>x\<bar>"
  shows "\<bar>rnd x - x\<bar> \<le> \<bar>x\<bar> / 2 ^ 53"
proof -
  define p where "p = (2::rat) powi (ilog2 \<bar>x\<bar> - 52)"
  have p: "0 < p" by (simp add: p_def)
  have pos: "0 < \<bar>x\<bar>"
    using assms two_powi_pos [of "- 1022"] by linarith
  have "rnd x - x = (of_int (rne (x / p)) - x / p) * p"
    using p by (simp add: rnd_normal [OF assms] p_def [symmetric] field_simps)
  then have "\<bar>rnd x - x\<bar> = \<bar>of_int (rne (x / p)) - x / p\<bar> * p"
    using p by (simp add: abs_mult)
  also have "\<dots> \<le> 1 / 2 * p"
    using rne_error [of "x / p"] p by (intro mult_right_mono) simp_all
  also have "\<dots> = 2 powi ilog2 \<bar>x\<bar> / 2 ^ 53"
    using powi_diff_53 [of "ilog2 \<bar>x\<bar>"] by (simp add: p_def)
  also have "\<dots> \<le> \<bar>x\<bar> / 2 ^ 53"
    using ilog2_bounds(1) [OF pos] by (simp add: divide_right_mono)
  finally show ?thesis .
qed

lemma rnd_eqI:
  assumes "2 powi e \<le> \<bar>x\<bar>" and "\<bar>x\<bar> < 2 powi (e + 1)" and "- 1022 \<le> e"
    and "\<bar>x / 2 powi (e - 52) - of_int k\<bar> < 1 / 2"
  shows "rnd x = of_int k * 2 powi (e - 52)"
proof -
  have pos: "0 < \<bar>x\<bar>"
    using assms(1) two_powi_pos [of e] by linarith
  have e: "ilog2 \<bar>x\<bar> = e"
    using pos assms(1,2) by (rule ilog2_unique)
  have "(2::rat) powi (- 1022) \<le> 2 powi e"
    using assms(3) by (rule two_powi_mono)
  with assms(1) have "2 powi (- 1022) \<le> \<bar>x\<bar>" by linarith
  from rnd_normal [OF this] show ?thesis
    by (simp add: e rne_near [OF assms(4)])
qed

lemma rnd_double:
  assumes "2 powi (- 1022) \<le> \<bar>x\<bar>"
  shows "rnd (2 * x) = 2 * rnd x"
proof -
  have pos: "0 < \<bar>x\<bar>"
    using assms two_powi_pos [of "- 1022"] by linarith
  define e where "e = ilog2 \<bar>x\<bar>"
  have up: "(2::rat) powi (k + 1) = 2 * 2 powi k" for k
    by (simp add: power_int_add)
  have b: "2 powi e \<le> \<bar>x\<bar>" "\<bar>x\<bar> < 2 powi (e + 1)"
    using ilog2_bounds [OF pos] by (simp_all add: e_def)
  have eq: "\<bar>2 * x\<bar> = 2 * \<bar>x\<bar>"
    by (simp add: abs_mult)
  have "2 powi (e + 1) \<le> \<bar>2 * x\<bar>"
    using b(1) up [of e] eq by linarith
  moreover have "\<bar>2 * x\<bar> < 2 powi (e + 1 + 1)"
    using b(2) up [of "e + 1"] eq by linarith
  moreover have "0 < \<bar>2 * x\<bar>"
    using pos eq by linarith
  ultimately have e2: "ilog2 \<bar>2 * x\<bar> = e + 1"
    by (intro ilog2_unique)
  have n2: "2 powi (- 1022) \<le> \<bar>2 * x\<bar>"
    using assms eq by linarith
  define p where "p = (2::rat) powi (e - 52)"
  have "e + 1 - 52 = e - 52 + 1"
    by simp
  then have "(2::rat) powi (e + 1 - 52) = 2 powi (e - 52 + 1)"
    by (simp only:)
  then have p2: "(2::rat) powi (e + 1 - 52) = 2 * p"
    by (simp only: up p_def)
  have r2: "rnd (2 * x) = of_int (rne (2 * x / (2 * p))) * (2 * p)"
    using rnd_normal [OF n2] by (simp only: e2 p2)
  have r1: "rnd x = of_int (rne (x / p)) * p"
    using rnd_normal [OF assms] by (simp only: e_def [symmetric] p_def [symmetric])
  have "2 * x / (2 * p) = x / p"
    by simp
  with r1 r2 show ?thesis
    by simp
qed

lemma rnd_of_int:
  assumes "\<bar>n\<bar> < 2 ^ 53"
  shows "rnd (of_int n) = of_int n"
proof (cases "n = 0")
  case True
  then show ?thesis by simp
next
  case False
  define x :: rat where "x = of_int n"
  define e where "e = ilog2 \<bar>x\<bar>"
  have pos: "0 < \<bar>x\<bar>" and ge1: "1 \<le> \<bar>x\<bar>"
    using False by (simp_all add: x_def)
  have "e \<le> 52"
  proof (rule ccontr)
    assume "\<not> e \<le> 52"
    then have "(2::rat) powi 53 \<le> 2 powi e"
      by (intro two_powi_mono) simp
    also have "\<dots> \<le> \<bar>x\<bar>"
      using ilog2_bounds(1) [OF pos] by (simp add: e_def)
    finally have "(2::rat) ^ 53 \<le> of_int \<bar>n\<bar>"
      by (simp add: x_def)
    then have "(of_int (2 ^ 53) :: rat) \<le> of_int \<bar>n\<bar>"
      by simp
    then have "2 ^ 53 \<le> \<bar>n\<bar>"
      by (simp only: of_int_le_iff)
    with assms show False by simp
  qed
  have "0 \<le> e"
  proof (rule ccontr)
    assume "\<not> 0 \<le> e"
    then have "(2::rat) powi (e + 1) \<le> 2 powi 0"
      by (intro two_powi_mono) simp
    with ilog2_bounds(2) [OF pos] ge1 show False
      by (simp add: e_def)
  qed
  have norm: "2 powi (- 1022) \<le> \<bar>x\<bar>"
  proof -
    have "(2::rat) powi (- 1022) \<le> 2 powi 0"
      by (intro two_powi_mono) simp
    with ge1 show ?thesis by simp
  qed
  have "(2::rat) powi (e - 52) = 1 / 2 ^ nat (52 - e)"
    using powi_neg [of "52 - e"] \<open>e \<le> 52\<close> by simp
  then have q: "x / 2 powi (e - 52) = of_int (n * 2 ^ nat (52 - e))"
    by (simp add: x_def)
  have "rnd x = of_int (rne (x / 2 powi (e - 52))) * 2 powi (e - 52)"
    using rnd_normal [OF norm] by (simp add: e_def)
  also have "\<dots> = x / 2 powi (e - 52) * 2 powi (e - 52)"
    by (simp only: q rne_of_int)
  also have "\<dots> = x"
    by simp
  finally show ?thesis
    by (simp add: x_def)
qed

subsection \<open>Accumulated rounding error\<close>

lemma approx_refl: "0 \<le> x \<Longrightarrow> approx 0 x x"
  by (simp add: approx_def)

lemma growth_ge_1: "1 \<le> (1 + 1 / 2 ^ 53 :: rat) ^ k"
  by (rule one_le_power) simp

lemma growth_mono: "i \<le> j \<Longrightarrow> (1 + 1 / 2 ^ 53 :: rat) ^ i \<le> (1 + 1 / 2 ^ 53) ^ j"
  by (rule power_increasing) simp_all

lemma growth_16: "(1 + 1 / 2 ^ 53 :: rat) ^ 16 \<le> 1 + 17 / 2 ^ 53"
  by (simp add: power_numeral_even power_numeral_odd field_simps)

lemma approx_mono: "approx i a x \<Longrightarrow> i \<le> j \<Longrightarrow> approx j a x"
proof -
  assume a: "approx i a x" and le: "i \<le> j"
  have "((1 + 1 / 2 ^ 53) ^ i - 1) * x \<le> ((1 + 1 / 2 ^ 53) ^ j - 1) * x"
    using a growth_mono [OF le] by (intro mult_right_mono) (simp_all add: approx_def)
  with a show ?thesis
    by (simp add: approx_def)
qed

lemma approx_mult:
  assumes "approx i a x" and "approx j b y"
  shows "approx (i + j) (a * b) (x * y)"
proof -
  define P :: rat where "P = (1 + 1 / 2 ^ 53) ^ i"
  define Q :: rat where "Q = (1 + 1 / 2 ^ 53) ^ j"
  have P: "1 \<le> P" and Q: "1 \<le> Q"
    by (simp_all add: P_def Q_def growth_ge_1)
  have x: "0 \<le> x" and y: "0 \<le> y"
    and ax: "\<bar>a - x\<bar> \<le> (P - 1) * x" and by': "\<bar>b - y\<bar> \<le> (Q - 1) * y"
    using assms by (simp_all add: approx_def P_def Q_def)
  have "a * b - x * y = (a - x) * (b - y) + x * (b - y) + y * (a - x)"
    by (simp add: algebra_simps)
  then have "\<bar>a * b - x * y\<bar> \<le> \<bar>a - x\<bar> * \<bar>b - y\<bar> + x * \<bar>b - y\<bar> + y * \<bar>a - x\<bar>"
    using x y abs_triangle_ineq [of "(a - x) * (b - y) + x * (b - y)" "y * (a - x)"]
      abs_triangle_ineq [of "(a - x) * (b - y)" "x * (b - y)"]
    by (simp add: abs_mult)
  also have "\<dots> \<le> ((P - 1) * x) * ((Q - 1) * y) + x * ((Q - 1) * y) + y * ((P - 1) * x)"
    using ax by' x y by (intro add_mono mult_mono mult_left_mono) simp_all
  also have "\<dots> = (P * Q - 1) * (x * y)"
    by (simp add: algebra_simps)
  finally show ?thesis
    using x y by (simp add: approx_def power_add P_def Q_def)
qed

lemma approx_add:
  assumes "approx k a x" and "approx k b y"
  shows "approx k (a + b) (x + y)"
proof -
  have "\<bar>a + b - (x + y)\<bar> \<le> \<bar>a - x\<bar> + \<bar>b - y\<bar>"
    by linarith
  with assms show ?thesis
    by (simp add: approx_def algebra_simps)
qed

lemma approx_zero: "approx k a 0 \<Longrightarrow> a = 0"
  by (simp add: approx_def)

lemma approx_bounds:
  assumes "approx k a x" and "k \<le> 16"
  shows "x / 2 \<le> a" and "a \<le> 2 * x"
proof -
  have "(1 + 1 / 2 ^ 53 :: rat) ^ k \<le> 1 + 17 / 2 ^ 53"
    using growth_mono [OF assms(2)] growth_16 by linarith
  then have "(1 + 1 / 2 ^ 53 :: rat) ^ k - 1 \<le> 1 / 2"
    by simp
  moreover have "0 \<le> x"
    using assms(1) by (simp add: approx_def)
  ultimately have "((1 + 1 / 2 ^ 53) ^ k - 1) * x \<le> 1 / 2 * x"
    by (intro mult_right_mono)
  with assms(1) have "\<bar>a - x\<bar> \<le> x / 2"
    by (simp add: approx_def)
  then show "x / 2 \<le> a" and "a \<le> 2 * x"
    using \<open>0 \<le> x\<close> by linarith+
qed

lemma small_normal: "1 / 2 ^ 31 \<le> a \<Longrightarrow> 2 powi (- 1022) \<le> \<bar>a :: rat\<bar>"
proof -
  assume a: "1 / 2 ^ 31 \<le> a"
  have "(2::rat) powi (- 1022) \<le> 2 powi (- 31)"
    by (intro two_powi_mono) simp
  also have "(2::rat) powi (- 31) = 1 / 2 ^ 31"
    using powi_neg [of 31] by simp
  finally show ?thesis
    using a by linarith
qed

lemma approx_rnd:
  assumes "approx k a x" and "k \<le> 16" and "sized x"
  shows "approx (Suc k) (rnd a) x"
proof (cases "x = 0")
  case True
  with assms(1) have "a = 0" by (simp add: approx_zero)
  with True show ?thesis by (simp add: approx_def)
next
  case False
  with assms(3) have x: "1 / 2 ^ 30 \<le> x"
    by (simp add: sized_def)
  define P :: rat where "P = (1 + 1 / 2 ^ 53) ^ k"
  have ax: "\<bar>a - x\<bar> \<le> (P - 1) * x" and x0: "0 \<le> x"
    using assms(1) by (simp_all add: approx_def P_def)
  have a: "x / 2 \<le> a"
    using approx_bounds(1) [OF assms(1,2)] .
  then have "1 / 2 ^ 31 \<le> a"
    using x by simp
  then have norm: "2 powi (- 1022) \<le> \<bar>a\<bar>" and apos: "0 \<le> a"
    using small_normal [of a] x0 a by simp_all
  have "a \<le> P * x"
    using ax by (simp add: algebra_simps abs_le_iff)
  then have "\<bar>a\<bar> / 2 ^ 53 \<le> P * x / 2 ^ 53"
    using apos by (simp add: divide_right_mono)
  with rnd_error [OF norm] have "\<bar>rnd a - a\<bar> \<le> P * x / 2 ^ 53"
    by linarith
  then have "\<bar>rnd a - x\<bar> \<le> P * x / 2 ^ 53 + (P - 1) * x"
    using ax by linarith
  also have "\<dots> = (P * (1 + 1 / 2 ^ 53) - 1) * x"
    by (simp add: algebra_simps)
  finally show ?thesis
    using x0 by (simp add: approx_def P_def mult.commute)
qed

lemma approx_finite:
  assumes "approx k a x" and "k \<le> 16" and "sized x"
  shows "\<not> 2 ^ 1024 \<le> \<bar>a\<bar>"
proof -
  have "0 \<le> x"
    using assms(1) by (simp add: approx_def)
  then have "\<bar>a\<bar> \<le> 2 * x"
    using approx_bounds [OF assms(1,2)] by linarith
  also have "\<dots> \<le> 2 * 2 ^ 100"
    using assms(3) by (simp add: sized_def)
  also have "\<dots> < (2::rat) ^ 1024"
    by simp
  finally show ?thesis by simp
qed

lemma approx_rne:
  assumes "approx k a x" and "x * 10 ^ nd = of_int K"
    and "((1 + 1 / 2 ^ 53 :: rat) ^ k - 1) * of_int K < 1 / 2"
  shows "rne (a * 10 ^ nd) = K"
proof (rule rne_near)
  have "a * 10 ^ nd - of_int K = (a - x) * 10 ^ nd"
    by (simp add: assms(2) [symmetric] algebra_simps)
  then have "\<bar>a * 10 ^ nd - of_int K\<bar> = \<bar>a - x\<bar> * 10 ^ nd"
    by (simp add: abs_mult)
  also have "\<dots> \<le> ((1 + 1 / 2 ^ 53) ^ k - 1) * x * 10 ^ nd"
    using assms(1) by (intro mult_right_mono) (simp_all add: approx_def)
  also have "\<dots> = ((1 + 1 / 2 ^ 53) ^ k - 1) * of_int K"
    by (simp add: assms(2) [symmetric])
  finally show "\<bar>a * 10 ^ nd - of_int K\<bar> < 1 / 2"
    using assms(3) by linarith
qed

subsection \<open>Operations that stay finite\<close>

lemma sized_scaled:
  assumes "0 \<le> k" and "k \<le> 2 ^ 70" and "1 / 10 ^ 6 \<le> q" and "q \<le> 10 ^ 6"
  shows "sized (of_int k * q)"
proof (cases "k = 0")
  case True
  then show ?thesis by (simp add: sized_def)
next
  case False
  with assms(1) have "1 \<le> k" by simp
  then have k1: "(1::rat) \<le> of_int k" by simp
  have q0: "0 \<le> q" using assms(3) by simp
  have "(of_int k :: rat) \<le> of_int (2 ^ 70)"
    using assms(2) by (simp only: of_int_le_iff)
  then have k2: "(of_int k :: rat) \<le> 2 ^ 70" by simp
  have "1 * q \<le> of_int k * q"
    using k1 q0 by (intro mult_right_mono)
  moreover have "(1::rat) / 2 ^ 30 \<le> 1 / 10 ^ 6"
    by simp
  ultimately have lo: "1 / 2 ^ 30 \<le> of_int k * q"
    using assms(3) by linarith
  have "of_int k * q \<le> 2 ^ 70 * 10 ^ 6"
    using k2 assms(4) q0 by (intro mult_mono) simp_all
  then have "of_int k * q \<le> 2 ^ 100"
    by simp
  with lo show ?thesis by (simp add: sized_def)
qed

lemma to_float_finite:
  assumes "approx k a x" and "k \<le> 15" and "sized x"
  shows "to_float a = Finite (rnd a)" and "approx (Suc k) (rnd a) x"
proof -
  show r: "approx (Suc k) (rnd a) x"
    using assms by (intro approx_rnd) simp_all
  have "\<not> 2 ^ 1024 \<le> \<bar>rnd a\<bar>"
    using r assms(2,3) by (intro approx_finite [of "Suc k" _ x]) simp_all
  then show "to_float a = Finite (rnd a)"
    by (simp add: to_float_def Let_def abs_le_iff not_le) linarith
qed

lemma float_of_int_exact: "\<bar>n\<bar> < 2 ^ 53 \<Longrightarrow> float_of_int n = Inr (Finite (of_int n))"
proof -
  assume n: "\<bar>n\<bar> < 2 ^ 53"
  then have "(of_int \<bar>n\<bar> :: rat) < of_int (2 ^ 53)"
    by (simp only: of_int_less_iff)
  then have "\<bar>of_int n :: rat\<bar> < 2 ^ 53"
    by simp
  also have "\<dots> < (2::rat) ^ 1024"
    by simp
  finally show ?thesis
    using n by (simp add: float_of_int_def rnd_of_int)
qed

lemma int_truediv_1000:
  assumes "0 \<le> n" and "n \<le> 2 ^ 70"
  shows "int_truediv n 1000 = Inr (Finite (rnd (of_int n / 1000)))"
    and "approx 1 (rnd (of_int n / 1000)) (of_int n / 1000)"
proof -
  have s: "sized (of_int n / 1000)"
    using sized_scaled [OF assms, of "1 / 1000"] by simp
  have x: "(0::rat) \<le> of_int n / 1000"
    using assms(1) by simp
  show a: "approx 1 (rnd (of_int n / 1000)) (of_int n / 1000)"
    using approx_rnd [OF approx_refl [OF x] _ s] by simp
  have "\<not> 2 ^ 1024 \<le> \<bar>rnd (of_int n / 1000)\<bar>"
    using a s by (intro approx_finite [of 1 _ "of_int n / 1000"]) simp_all
  then show "int_truediv n 1000 = Inr (Finite (rnd (of_int n / 1000)))"
    by (simp add: int_truediv_def Let_def)
qed

lemma float_mul_int_small:
  assumes "approx k a x" and "k \<le> 14" and "sized (x * of_int c)" and "0 \<le> c" and "c < 2 ^ 53"
  shows "float_mul_int (Finite a) c = Inr (Finite (rnd (a * of_int c)))"
    and "approx (Suc k) (rnd (a * of_int c)) (x * of_int c)"
proof -
  have c: "float_of_int c = Inr (Finite (of_int c))"
    using assms(4,5) by (intro float_of_int_exact) simp
  have "approx 0 (of_int c :: rat) (of_int c)"
    using assms(4) by (intro approx_refl) simp
  from approx_mult [OF assms(1) this]
  have m: "approx k (a * of_int c) (x * of_int c)"
    by simp
  from to_float_finite [OF m _ assms(3)] assms(2)
  show "float_mul_int (Finite a) c = Inr (Finite (rnd (a * of_int c)))"
    and "approx (Suc k) (rnd (a * of_int c)) (x * of_int c)"
    by (simp_all add: float_mul_int_def c bind_def)
qed

lemma rne_nonneg: "0 \<le> w \<Longrightarrow> 0 \<le> rne w"
proof -
  assume "0 \<le> w"
  then have "0 \<le> \<lfloor>w\<rfloor>" by simp
  then show ?thesis
    by (simp add: rne_def Let_def)
qed

lemma round_dec_finite:
  assumes "0 \<le> v" and "v \<le> 2 ^ 200" and "nd \<le> 6"
  shows "\<not> 2 ^ 1024 \<le> \<bar>round_dec v nd\<bar>"
proof -
  define K where "K = rne (v * 10 ^ nd)"
  define z :: rat where "z = of_int K / 10 ^ nd"
  have K0: "0 \<le> K"
    using assms(1) by (simp add: K_def rne_nonneg)
  have "\<bar>rnd z\<bar> \<le> 2 * (v + 1)"
  proof (cases "K = 0")
    case True
    then show ?thesis using assms(1) by (simp add: z_def)
  next
    case False
    with K0 have "1 \<le> K" by simp
    then have K1: "(1::rat) \<le> of_int K" by simp
    have "(10::rat) ^ nd \<le> 10 ^ 6"
      using assms(3) by (intro power_increasing) simp_all
    then have "(1::rat) / 10 ^ 6 \<le> 1 / 10 ^ nd"
      by (intro divide_left_mono) simp_all
    also have "\<dots> \<le> z"
      using K1 by (simp add: z_def divide_right_mono)
    finally have zlo: "1 / 10 ^ 6 \<le> z" .
    then have "1 / 2 ^ 31 \<le> z" by simp
    then have norm: "2 powi (- 1022) \<le> \<bar>z\<bar>"
      by (rule small_normal)
    have z0: "0 \<le> z" using zlo by simp
    have "\<bar>of_int K - v * 10 ^ nd\<bar> \<le> 1 / 2"
      using rne_error [of "v * 10 ^ nd"] by (simp add: K_def)
    then have "of_int K \<le> v * 10 ^ nd + 1 / 2"
      by linarith
    then have "z \<le> (v * 10 ^ nd + 1 / 2) / 10 ^ nd"
      by (simp add: z_def divide_right_mono)
    also have "\<dots> = v + 1 / 2 / 10 ^ nd"
      by (simp add: add_divide_distrib)
    also have "\<dots> \<le> v + 1"
    proof -
      have "(1::rat) \<le> 10 ^ nd"
        by (rule one_le_power) simp
      then have "(1::rat) \<le> 2 * 10 ^ nd"
        by linarith
      then show ?thesis by simp
    qed
    finally have zhi: "z \<le> v + 1" .
    have "\<bar>rnd z - z\<bar> \<le> \<bar>z\<bar> / 2 ^ 53"
      using norm by (rule rnd_error)
    also have "\<dots> \<le> z"
      using z0 by (simp add: field_simps)
    finally have "rnd z \<le> 2 * z" and "0 \<le> rnd z"
      using z0 by (simp_all add: abs_le_iff)
    then show ?thesis
      using zhi by simp
  qed
  also have "\<dots> \<le> 2 * (2 ^ 200 + 1)"
    using assms(2) by simp
  also have "\<dots> < (2::rat) ^ 1024"
    by simp
  finally show ?thesis
    by (simp add: round_dec_def decimal_def K_def z_def)
qed

lemma py_round_value:
  assumes "approx k v x" and "k \<le> 16" and "sized x" and "nd \<le> 6"
  shows "py_round (Finite v) nd = Inr (Finite (round_dec v nd))"
proof -
  have "0 \<le> x" and "x \<le> 2 ^ 100"
    using assms(1,3) by (auto simp: approx_def sized_def)
  with approx_bounds [OF assms(1,2)] have "0 \<le> v" and "v \<le> 2 * 2 ^ 100"
    by linarith+
  moreover have "(2::rat) * 2 ^ 100 \<le> 2 ^ 200"
    by simp
  ultimately have "\<not> 2 ^ 1024 \<le> \<bar>round_dec v nd\<bar>"
    using assms(4) by (intro round_dec_finite) linarith+
  then show ?thesis
    by (simp add: Let_def)
qed

lemma round_dec_exact:
  assumes "approx k v x" and "x * 10 ^ nd = of_int K"
    and "((1 + 1 / 2 ^ 53 :: rat) ^ k - 1) * of_int K < 1 / 2"
  shows "round_dec v nd = rnd x"
proof -
  have "x = of_int K / 10 ^ nd"
    using assms(2) by (simp add: field_simps)
  then show ?thesis
    by (simp add: round_dec_def decimal_def approx_rne [OF assms])
qed

subsection \<open>The floats of \<open>calculate_cost\<close>\<close>

lemma price_value:
  assumes "1 / 10 ^ 6 \<le> q" and "q \<le> 10 ^ 6"
  shows "to_float q = Finite (rnd q)" and "approx 1 (rnd q) q"
proof -
  have s: "sized q"
    using sized_scaled [of 1 q] assms by simp
  have "0 \<le> q" using assms(1) by simp
  from to_float_finite [OF approx_refl [OF this] _ s]
  show "to_float q = Finite (rnd q)" and "approx 1 (rnd q) q"
    by simp_all
qed

lemma rate_cost:
  assumes "0 \<le> n" and "n \<le> 2 ^ 60" and "1 / 10 ^ 3 \<le> q" and "q \<le> 10 ^ 3"
  shows "fmul (Finite (rnd (of_int n / 1000))) (Finite (rnd q)) =
           Finite (rnd (rnd (of_int n / 1000) * rnd q))"
    and "approx 3 (rnd (rnd (of_int n / 1000) * rnd q)) (of_int n * (q / 1000))"
proof -
  have n70: "n \<le> 2 ^ 70"
    using assms(2) by simp
  have a: "approx 1 (rnd (of_int n / 1000)) (of_int n / 1000)"
    using int_truediv_1000(2) [OF assms(1) n70] .
  have b: "approx 1 (rnd q) q"
    using assms(3,4) by (intro price_value(2)) simp_all
  have x: "(of_int n / 1000 :: rat) * q = of_int n * (q / 1000)"
    by simp
  have s: "sized (of_int n * (q / 1000))"
    using assms by (intro sized_scaled) (simp_all add: field_simps)
  from approx_mult [OF a b] have m: "approx 2 (rnd (of_int n / 1000) * rnd q) (of_int n * (q / 1000))"
    by (simp add: x eval_nat_numeral)
  from to_float_finite [OF m _ s]
  show "fmul (Finite (rnd (of_int n / 1000))) (Finite (rnd q)) =
           Finite (rnd (rnd (of_int n / 1000) * rnd q))"
    and "approx 3 (rnd (rnd (of_int n / 1000) * rnd q)) (of_int n * (q / 1000))"
    by (simp_all add: eval_nat_numeral)
qed

lemma calculate_cost_value:
  assumes "0 \<le> n" and "n \<le> 2 ^ 60" and "0 \<le> m" and "m \<le> 2 ^ 60"
  shows "calculate_cost n m =
      Inr \<lparr>cost_input = Finite (round_dec (input_cost_value n) 6),
           cost_output = Finite (round_dec (output_cost_value m) 6),
           total_per_request = Finite (round_dec (total_cost_value n m) 6),
           weekly_estimate = Finite (round_dec (weekly_cost_value n m) 4),
           monthly_estimate = Finite (round_dec (monthly_cost_value n m) 4)\<rparr>"
    and "approx 3 (input_cost_value n) (of_int (3 * n) / 10 ^ 6)"
    and "approx 3 (output_cost_value m) (of_int (15 * m) / 10 ^ 6)"
    and "approx 4 (total_cost_value n m) (of_int (3 * n + 15 * m) / 10 ^ 6)"
    and "approx 6 (weekly_cost_value n m) (of_int (7 * (3 * n + 15 * m)) / 10 ^ 4)"
    and "approx 6 (monthly_cost_value n m) (of_int (30 * (3 * n + 15 * m)) / 10 ^ 4)"
proof -
  define xi :: rat where "xi = of_int (3 * n) / 10 ^ 6"
  define xo :: rat where "xo = of_int (15 * m) / 10 ^ 6"
  define xt :: rat where "xt = of_int (3 * n + 15 * m) / 10 ^ 6"
  define xd :: rat where "xd = of_int (3 * n + 15 * m) / 10 ^ 4"
  define xw :: rat where "xw = of_int (7 * (3 * n + 15 * m)) / 10 ^ 4"
  define xm :: rat where "xm = of_int (30 * (3 * n + 15 * m)) / 10 ^ 4"
  have k: "0 \<le> 3 * n + 15 * m" "3 * n + 15 * m \<le> 2 ^ 70"
    using assms by simp_all
  have n70: "n \<le> 2 ^ 70" and m70: "m \<le> 2 ^ 70"
    using assms by simp_all
  have ei: "xi = of_int n * (3 / 1000 / 1000)"
    and eo: "xo = of_int m * (15 / 1000 / 1000)"
    and et: "xt = of_int (3 * n + 15 * m) * (1 / 10 ^ 6)"
    and ed: "xd = of_int (3 * n + 15 * m) * (1 / 10 ^ 4)"
    and ew: "xw = of_int (3 * n + 15 * m) * (7 / 10 ^ 4)"
    and em: "xm = of_int (3 * n + 15 * m) * (30 / 10 ^ 4)"
    by (simp_all add: xi_def xo_def xt_def xd_def xw_def xm_def)
  have si: "sized xi"
    unfolding ei by (rule sized_scaled [OF assms(1) n70]) simp_all
  have so: "sized xo"
    unfolding eo by (rule sized_scaled [OF assms(3) m70]) simp_all
  have st: "sized xt"
    unfolding et by (rule sized_scaled [OF k]) simp_all
  have sd': "sized xd"
    unfolding ed by (rule sized_scaled [OF k]) simp_all
  have sw': "sized xw"
    unfolding ew by (rule sized_scaled [OF k]) simp_all
  have sm': "sized xm"
    unfolding em by (rule sized_scaled [OF k]) simp_all
  have d: "xt * 100 = xd" and w: "xd * 7 = xw" and mo: "xd * 30 = xm"
    by (simp_all add: xt_def xd_def xw_def xm_def)
  have sd: "sized (xt * of_int 100)" and sw: "sized (xd * of_int 7)"
    and sm: "sized (xd * of_int 30)"
    using sd' sw' sm' by (simp_all add: d w mo)
  have pi: "input_price_per_1k = Finite (rnd (3 / 1000))"
    using price_value(1) [of "3 / 1000"] by (simp add: input_price_per_1k_def)
  have po: "output_price_per_1k = Finite (rnd (15 / 1000))"
    using price_value(1) [of "15 / 1000"] by (simp add: output_price_per_1k_def)
  have di: "int_truediv n 1000 = Inr (Finite (rnd (of_int n / 1000)))"
    using int_truediv_1000(1) [OF assms(1) n70] .
  have do: "int_truediv m 1000 = Inr (Finite (rnd (of_int m / 1000)))"
    using int_truediv_1000(1) [OF assms(3) m70] .
  have fi: "fmul (Finite (rnd (of_int n / 1000))) (Finite (rnd (3 / 1000))) =
      Finite (input_cost_value n)"
    and ai: "approx 3 (input_cost_value n) xi"
    using rate_cost [OF assms(1,2), of "3 / 1000"]
    by (simp_all add: input_cost_value_def ei)
  have fo: "fmul (Finite (rnd (of_int m / 1000))) (Finite (rnd (15 / 1000))) =
      Finite (output_cost_value m)"
    and ao: "approx 3 (output_cost_value m) xo"
    using rate_cost [OF assms(3,4), of "15 / 1000"]
    by (simp_all add: output_cost_value_def eo)
  have "xi + xo = xt"
    by (simp add: xi_def xo_def xt_def add_divide_distrib)
  with approx_add [OF ai ao]
  have "approx 3 (input_cost_value n + output_cost_value m) xt"
    by simp
  from to_float_finite [OF this _ st]
  have ft: "fadd (Finite (input_cost_value n)) (Finite (output_cost_value m)) =
      Finite (total_cost_value n m)"
    and at: "approx 4 (total_cost_value n m) xt"
    by (simp_all add: total_cost_value_def eval_nat_numeral)
  from float_mul_int_small [OF at _ sd]
  have fd: "float_mul_int (Finite (total_cost_value n m)) 100 = Inr (Finite (daily_cost_value n m))"
    and ad: "approx 5 (daily_cost_value n m) xd"
    by (simp_all add: daily_cost_value_def d eval_nat_numeral)
  from float_mul_int_small [OF ad _ sw]
  have fw: "float_mul_int (Finite (daily_cost_value n m)) 7 = Inr (Finite (weekly_cost_value n m))"
    and aw: "approx 6 (weekly_cost_value n m) xw"
    by (simp_all add: weekly_cost_value_def w eval_nat_numeral)
  from float_mul_int_small [OF ad _ sm]
  have fm: "float_mul_int (Finite (daily_cost_value n m)) 30 = Inr (Finite (monthly_cost_value n m))"
    and am: "approx 6 (monthly_cost_value n m) xm"
    by (simp_all add: monthly_cost_value_def mo eval_nat_numeral)
  have r1: "py_round (Finite (input_cost_value n)) 6 = Inr (Finite (round_dec (input_cost_value n) 6))"
    by (rule py_round_value [OF ai _ si]) simp_all
  have r2: "py_round (Finite (output_cost_value m)) 6 = Inr (Finite (round_dec (output_cost_value m) 6))"
    by (rule py_round_value [OF ao _ so]) simp_all
  have r3: "py_round (Finite (total_cost_value n m)) 6 = Inr (Finite (round_dec (total_cost_value n m) 6))"
    by (rule py_round_value [OF at _ st]) simp_all
  have r4: "py_round (Finite (weekly_cost_value n m)) 4 = Inr (Finite (round_dec (weekly_cost_value n m) 4))"
    by (rule py_round_value [OF aw _ sw']) simp_all
  have r5: "py_round (Finite (monthly_cost_value n m)) 4 = Inr (Finite (round_dec (monthly_cost_value n m) 4))"
    by (rule py_round_value [OF am _ sm']) simp_all
  show "calculate_cost n m =
      Inr \<lparr>cost_input = Finite (round_dec (input_cost_value n) 6),
           cost_output = Finite (round_dec (output_cost_value m) 6),
           total_per_request = Finite (round_dec (total_cost_value n m) 6),
           weekly_estimate = Finite (round_dec (weekly_cost_value n m) 4),
           monthly_estimate = Finite (round_dec (monthly_cost_value n m) 4)\<rparr>"
    by (simp only: calculate_cost_def bind_def Let_def REQUESTS_PER_DAY_def
        di do pi po fi fo ft fd fw fm r1 r2 r3 r4 r5 sum.case)
  show "approx 3 (input_cost_value n) (of_int (3 * n) / 10 ^ 6)"
    and "approx 3 (output_cost_value m) (of_int (15 * m) / 10 ^ 6)"
    and "approx 4 (total_cost_value n m) (of_int (3 * n + 15 * m) / 10 ^ 6)"
    and "approx 6 (weekly_cost_value n m) (of_int (7 * (3 * n + 15 * m)) / 10 ^ 4)"
    and "approx 6 (monthly_cost_value n m) (of_int (30 * (3 * n + 15 * m)) / 10 ^ 4)"
    using ai ao at aw am by (simp_all add: xi_def xo_def xt_def xw_def xm_def)
qed

subsection \<open>The output estimate\<close>

lemma rnd_three_fifths: "rnd (3 / 5) = 5404319552844595 / 2 ^ 53"
proof -
  have "rnd (3 / 5) = of_int 5404319552844595 * 2 powi (- 1 - 52)"
    by (rule rnd_eqI) (simp_all add: power_int_minus)
  then show ?thesis
    by (simp add: power_int_minus field_simps)
qed

lemma to_float_three_fifths: "to_float (3 / 5) = Finite (5404319552844595 / 2 ^ 53)"
  by (simp add: to_float_def Let_def rnd_three_fifths)

lemma to_float_six_tenths: "to_float (6 / 10) = Finite (5404319552844595 / 2 ^ 53)"
proof -
  have "(6::rat) / 10 = 3 / 5" by simp
  then show ?thesis
    by (simp only: to_float_three_fifths)
qed

lemma rnd_multiple_exact:
  assumes "1 \<le> j" and "j \<le> 2 ^ 50"
  shows "rnd (of_int (3 * j) - of_int j / 2 ^ 53) = of_int (3 * j)"
proof -
  define y :: rat where "y = of_int (3 * j) - of_int j / 2 ^ 53"
  have j1: "(1::rat) \<le> of_int j"
    using assms(1) by simp
  have "(of_int j :: rat) \<le> of_int (2 ^ 50)"
    using assms(2) by (simp only: of_int_le_iff)
  then have j50: "(of_int j :: rat) \<le> 2 ^ 50"
    by simp
  have "(of_int j :: rat) / 2 ^ 53 \<le> of_int j"
    using j1 by (simp add: field_simps)
  then have ylo: "2 * of_int j \<le> y" and yhi: "y < 3 * of_int j"
    using j1 by (simp_all add: y_def)
  have ypos: "0 < y" and y1: "1 < y"
    using ylo j1 by linarith+
  define e where "e = ilog2 y"
  have b: "2 powi e \<le> y" "y < 2 powi (e + 1)"
    using ilog2_bounds [OF ypos] by (simp_all add: e_def)
  have e0: "0 \<le> e"
  proof (rule ccontr)
    assume "\<not> 0 \<le> e"
    then have "(2::rat) powi (e + 1) \<le> 2 powi 0"
      by (intro two_powi_mono) simp
    with b(2) y1 show False by simp
  qed
  have e52: "e \<le> 52"
  proof (rule ccontr)
    assume "\<not> e \<le> 52"
    then have "(2::rat) powi 53 \<le> 2 powi e"
      by (intro two_powi_mono) simp
    with b(1) yhi j50 show False by simp
  qed
  define P :: rat where "P = 2 ^ nat e"
  define Q :: rat where "Q = 2 ^ nat (52 - e)"
  have P: "2 powi e = P"
    using e0 by (simp add: P_def powi_nonneg)
  have P2: "2 powi (e + 1) = 2 * P"
    using e0 by (simp add: P power_int_add)
  have Q: "2 powi (e - 52) = 1 / Q"
    using powi_neg [of "52 - e"] e52 by (simp add: Q_def)
  have Qpos: "0 < Q"
    by (simp add: Q_def)
  have "nat e + nat (52 - e) = 52"
    using e0 e52 by simp
  then have PQ: "P * Q = 2 ^ 52"
    by (simp add: P_def Q_def power_add [symmetric])
  have jP: "of_int j < P"
    using ylo b(2) by (simp add: P2)
  have "of_int j * Q < P * Q"
    using jP Qpos by (rule mult_strict_right_mono)
  then have "of_int j * Q < 2 ^ 52"
    by (simp only: PQ)
  then have jQ: "of_int j * Q / 2 ^ 53 < 1 / 2"
    by (simp add: mult.commute)
  have K: "of_int (3 * j * 2 ^ nat (52 - e)) = 3 * of_int j * Q"
    by (simp add: Q_def)
  have "y / (1 / Q) = y * Q"
    by simp
  moreover have "y * Q - 3 * of_int j * Q = - (of_int j * Q / 2 ^ 53)"
    by (simp add: y_def algebra_simps)
  ultimately
  have "y / 2 powi (e - 52) - of_int (3 * j * 2 ^ nat (52 - e)) = - (of_int j * Q / 2 ^ 53)"
    by (simp only: Q K)
  moreover have "0 \<le> of_int j * Q / 2 ^ 53"
    using j1 Qpos by simp
  ultimately have near: "\<bar>y / 2 powi (e - 52) - of_int (3 * j * 2 ^ nat (52 - e))\<bar> < 1 / 2"
    using jQ by simp
  have "rnd y = of_int (3 * j * 2 ^ nat (52 - e)) * 2 powi (e - 52)"
  proof (rule rnd_eqI)
    show "2 powi e \<le> \<bar>y\<bar>" and "\<bar>y\<bar> < 2 powi (e + 1)"
      using b ypos by simp_all
    show "- 1022 \<le> e"
      using e0 by simp
    show "\<bar>y / 2 powi (e - 52) - of_int (3 * j * 2 ^ nat (52 - e))\<bar> < 1 / 2"
      by (rule near)
  qed
  also have "\<dots> = 3 * of_int j * Q * (1 / Q)"
    by (simp only: K Q)
  also have "\<dots> = of_int (3 * j)"
    using Qpos by simp
  finally show ?thesis
    by (simp add: y_def)
qed

lemma floor_scaled:
  assumes "1 \<le> n" and "n \<le> 2 ^ 50"
  shows "\<lfloor>rnd (of_int n * (5404319552844595 / 2 ^ 53))\<rfloor> = 3 * n div 5"
    and "0 \<le> rnd (of_int n * (5404319552844595 / 2 ^ 53))"
    and "rnd (of_int n * (5404319552844595 / 2 ^ 53)) < 2 ^ 51"
proof -
  define y :: rat where "y = of_int n * (5404319552844595 / 2 ^ 53)"
  define k where "k = 3 * n div 5"
  define r where "r = 3 * n mod 5"
  have n: "3 * n = 5 * k + r" and r: "0 \<le> r" "r < 5"
    by (simp_all add: k_def r_def)
  have n1: "(1::rat) \<le> of_int n"
    using assms(1) by simp
  have "(of_int n :: rat) \<le> of_int (2 ^ 50)"
    using assms(2) by (simp only: of_int_le_iff)
  then have n50: "(of_int n :: rat) \<le> 2 ^ 50"
    by simp
  have "(of_int (3 * n) :: rat) = of_int (5 * k + r)"
    by (simp only: n)
  then have n': "3 * (of_int n :: rat) = 5 * of_int k + of_int r"
    by simp
  have y: "y = of_int k + of_int r / 5 - of_int n / (5 * 2 ^ 53)"
    using n' by (simp add: y_def field_simps)
  have k0: "0 \<le> k"
    using assms(1) by (simp add: k_def)
  have "\<lfloor>rnd y\<rfloor> = k \<and> 0 \<le> rnd y \<and> rnd y < 2 ^ 51"
  proof (cases "r = 0")
    case True
    with n have n5: "n = 5 * (k div 3)" and k3: "k = 3 * (k div 3)"
      by presburger+
    define j where "j = k div 3"
    have j: "1 \<le> j" "j \<le> 2 ^ 50"
      using assms n5 by (simp_all add: j_def)
    have yj: "y = of_int (3 * j) - of_int j / 2 ^ 53"
      using n5 k3 True by (simp add: y j_def)
    have "rnd y = of_int (3 * j)"
      unfolding yj by (rule rnd_multiple_exact [OF j])
    moreover have "3 * j = k"
      using k3 by (simp add: j_def)
    ultimately have z: "rnd y = of_int k"
      by simp
    have "5 * k \<le> 3 * 2 ^ 50"
      using n r assms(2) by simp
    then have "k < 2 ^ 51"
      by simp
    then have "(of_int k :: rat) < of_int (2 ^ 51)"
      by (simp only: of_int_less_iff)
    with z k0 show ?thesis
      by simp
  next
    case False
    with r have "1 \<le> r" and "r \<le> 4"
      by simp_all
    then have r': "(1::rat) \<le> of_int r" "(of_int r :: rat) \<le> 4"
      by simp_all
    have ylo: "of_int k + 1 / 5 - 1 / 40 \<le> y" and yhi: "y \<le> of_int k + 4 / 5"
      using r' n1 n50 by (simp_all add: y field_simps)
    have "(0::rat) \<le> of_int k"
      using k0 by simp
    with ylo have half: "1 / 2 ^ 31 \<le> y" and ypos: "0 \<le> y"
      by simp_all
    have "y \<le> of_int n"
      using n1 by (simp add: y_def field_simps)
    with n50 have "y / 2 ^ 53 \<le> 1 / 8"
      by simp
    with rnd_error [OF small_normal [OF half]] ypos
    have "\<bar>rnd y - y\<bar> \<le> 1 / 8"
      by simp
    then have "rnd y - y \<le> 1 / 8" and "- (rnd y - y) \<le> 1 / 8"
      by (rule abs_le_D1, rule abs_le_D2)
    then have err: "rnd y \<le> y + 1 / 8" "y - 1 / 8 \<le> rnd y"
      by linarith+
    with ylo yhi have lo: "of_int k \<le> rnd y" and hi: "rnd y < of_int k + 1"
      by linarith+
    then have "\<lfloor>rnd y\<rfloor> = k"
      by (intro floor_unique) simp_all
    moreover have "rnd y < 2 ^ 51"
    proof -
      have "y \<le> 2 ^ 50"
        using \<open>y \<le> of_int n\<close> n50 by linarith
      with err(1) show ?thesis
        by simp
    qed
    ultimately show ?thesis
      using lo k0 by simp
  qed
  then show "\<lfloor>rnd (of_int n * (5404319552844595 / 2 ^ 53))\<rfloor> = 3 * n div 5"
    and "0 \<le> rnd (of_int n * (5404319552844595 / 2 ^ 53))"
    and "rnd (of_int n * (5404319552844595 / 2 ^ 53)) < 2 ^ 51"
    by (simp_all add: y_def k_def)
qed

lemma scaled_large:
  assumes "6667 \<le> n" and "n < 2 ^ 1023"
  shows "\<bar>rnd (of_int n)\<bar> < 2 ^ 1024"
    and "4000 \<le> rnd (rnd (of_int n) * (5404319552844595 / 2 ^ 53))"
    and "rnd (rnd (of_int n) * (5404319552844595 / 2 ^ 53)) < 2 ^ 1024"
proof -
  define x :: rat where "x = of_int n"
  define a where "a = rnd x"
  define y where "y = a * (5404319552844595 / 2 ^ 53)"
  have "(of_int 6667 :: rat) \<le> of_int n"
    using assms(1) by (simp only: of_int_le_iff)
  then have xlo: "6667 \<le> x"
    by (simp add: x_def)
  have "(of_int n :: rat) < of_int (2 ^ 1023)"
    using assms(2) by (simp only: of_int_less_iff)
  then have xhi: "x < 2 ^ 1023"
    by (simp add: x_def)
  have "1 / 2 ^ 31 \<le> x"
    using xlo by simp
  from rnd_error [OF small_normal [OF this]] xlo
  have "\<bar>a - x\<bar> \<le> x / 2 ^ 53"
    by (simp add: a_def)
  then have "a - x \<le> x / 2 ^ 53" and "- (a - x) \<le> x / 2 ^ 53"
    by (rule abs_le_D1, rule abs_le_D2)
  then have a: "x - x / 2 ^ 53 \<le> a" "a \<le> x + x / 2 ^ 53"
    by linarith+
  have alo: "6666 \<le> a"
    using a(1) xlo by simp
  have ahi: "a < 2 ^ 1024"
    using a(2) xhi by simp
  show "\<bar>rnd (of_int n)\<bar> < 2 ^ 1024"
    using alo ahi by (simp add: a_def x_def)
  have ylo: "40001 / 10 \<le> y"
    using a(1) xlo by (simp add: y_def)
  have yhi: "y \<le> a * (6 / 10)"
    using alo by (simp add: y_def)
  have "1 / 2 ^ 31 \<le> y"
    using ylo by simp
  from rnd_error [OF small_normal [OF this]] ylo
  have "\<bar>rnd y - y\<bar> \<le> y / 2 ^ 53"
    by simp
  then have "rnd y - y \<le> y / 2 ^ 53" and "- (rnd y - y) \<le> y / 2 ^ 53"
    by (rule abs_le_D1, rule abs_le_D2)
  then have z: "y - y / 2 ^ 53 \<le> rnd y" "rnd y \<le> y + y / 2 ^ 53"
    by linarith+
  have "4000 \<le> rnd y"
    using z(1) ylo by simp
  moreover have "rnd y < 2 ^ 1024"
    using z(2) yhi a(2) xhi by simp
  ultimately show "4000 \<le> rnd (rnd (of_int n) * (5404319552844595 / 2 ^ 53))"
    and "rnd (rnd (of_int n) * (5404319552844595 / 2 ^ 53)) < 2 ^ 1024"
    by (simp_all add: y_def a_def x_def)
qed

lemma to_float_0: "to_float 0 = Finite 0"
  by (simp add: to_float_def)

lemma estimate_output_tokens_value:
  assumes "0 \<le> n" and "n < 2 ^ 1023"
  shows "estimate_output_tokens n = Inr (max 50 (min (3 * n div 5) 4000))"
proof -
  let ?c = "5404319552844595 / 2 ^ 53 :: rat"
  consider "n = 0" | "1 \<le> n" "n \<le> 2 ^ 50" | "2 ^ 50 < n"
    using assms(1) by linarith
  then show ?thesis
  proof cases
    case 1
    have "float_of_int 0 = Inr (Finite 0)"
      using float_of_int_exact [of 0] by simp
    then show ?thesis
      using 1 by (simp add: estimate_output_tokens_def int_mul_float_def bind_def
          to_float_three_fifths to_float_0)
  next
    case 2
    have "\<bar>n\<bar> < 2 ^ 53"
      using 2 by simp
    then have f: "float_of_int n = Inr (Finite (of_int n))"
      by (rule float_of_int_exact)
    from floor_scaled [OF 2]
    have fl: "\<lfloor>rnd (of_int n * ?c)\<rfloor> = 3 * n div 5"
      and z0: "0 \<le> rnd (of_int n * ?c)" and zhi: "rnd (of_int n * ?c) < 2 ^ 51"
      by simp_all
    have "rnd (of_int n * ?c) < 2 ^ 1024"
      using zhi by simp
    then have t: "to_float (of_int n * ?c) = Finite (rnd (of_int n * ?c))"
      using z0 by (simp add: to_float_def Let_def)
    show ?thesis
      using z0 by (simp only: estimate_output_tokens_def int_mul_float_def bind_def f
          to_float_six_tenths sum.case fmul.simps t int_of_float.simps fl if_True)
  next
    case 3
    then have big: "6667 \<le> n"
      by simp
    from scaled_large [OF big assms(2)]
    have a: "\<bar>rnd (of_int n)\<bar> < 2 ^ 1024"
      and zlo: "4000 \<le> rnd (rnd (of_int n) * ?c)" and zhi: "rnd (rnd (of_int n) * ?c) < 2 ^ 1024"
      by simp_all
    have f: "float_of_int n = Inr (Finite (rnd (of_int n)))"
      using a by (simp add: float_of_int_def Let_def)
    have t: "to_float (rnd (of_int n) * ?c) = Finite (rnd (rnd (of_int n) * ?c))"
      using zlo zhi by (simp add: to_float_def Let_def)
    have z0: "0 \<le> rnd (rnd (of_int n) * ?c)"
      using zlo by simp
    have "4000 \<le> \<lfloor>rnd (rnd (of_int n) * ?c)\<rfloor>"
      using zlo by (simp add: le_floor_iff)
    moreover have "4000 \<le> 3 * n div 5"
      using big by simp
    ultimately have "max 50 (min \<lfloor>rnd (rnd (of_int n) * ?c)\<rfloor> 4000) =
        max 50 (min (3 * n div 5) 4000)"
      by simp
    then show ?thesis
      using z0 by (simp only: estimate_output_tokens_def int_mul_float_def bind_def f
          to_float_six_tenths sum.case fmul.simps t int_of_float.simps if_True)
  qed
qed

lemma floor_six_tenths: "\<lfloor>of_int n * (6 / 10) :: rat\<rfloor> = 3 * n div 5"
proof -
  have "(of_int n * (6 / 10) :: rat) = of_int (3 * n) / of_int 5"
    by simp
  then show ?thesis
    by (simp only: floor_divide_of_int_eq)
qed

subsection \<open>The cost fields\<close>

lemma growth_6: "(1 + 1 / 2 ^ 53 :: rat) ^ 6 \<le> 1 + 7 / 2 ^ 53"
  by (simp add: power_numeral_even power_numeral_odd field_simps)

lemma exact_ok:
  assumes "k \<le> 6" and "0 \<le> K" and "K \<le> 6 * 10 ^ 14"
  shows "((1 + 1 / 2 ^ 53 :: rat) ^ k - 1) * of_int K < 1 / 2"
proof -
  have "(1 + 1 / 2 ^ 53 :: rat) ^ k - 1 \<le> 7 / 2 ^ 53"
    using growth_mono [OF assms(1)] growth_6 by linarith
  moreover have K0: "(0::rat) \<le> of_int K"
    using assms(2) by simp
  ultimately have "((1 + 1 / 2 ^ 53 :: rat) ^ k - 1) * of_int K \<le> 7 / 2 ^ 53 * of_int K"
    by (intro mult_right_mono)
  moreover have "(of_int K :: rat) \<le> of_int (6 * 10 ^ 14)"
    using assms(3) by (simp only: of_int_le_iff)
  then have "(of_int K :: rat) \<le> 6 * 10 ^ 14"
    by simp
  ultimately show ?thesis
    by simp
qed

lemma decimal_grid: "x * 10 ^ nd = of_int K \<Longrightarrow> decimal x nd = x"
proof -
  assume a: "x * 10 ^ nd = of_int K"
  then have "x = of_int K / 10 ^ nd"
    by (simp add: field_simps)
  with a show ?thesis
    by (simp add: decimal_def)
qed

lemma input_cost_exact:
  assumes "0 \<le> n" and "n \<le> 2 * 10 ^ 14"
  shows "round_dec (input_cost_value n) 6 = rnd (of_int (3 * n) / 10 ^ 6)"
proof -
  have n60: "n \<le> 2 ^ 60"
    using assms(2) by simp
  have a: "approx 3 (input_cost_value n) (of_int (3 * n) / 10 ^ 6)"
    using calculate_cost_value(2) [OF assms(1) n60, of 0] by simp
  have e: "(of_int (3 * n) / 10 ^ 6 :: rat) * 10 ^ 6 = of_int (3 * n)"
    by simp
  show ?thesis
    by (rule round_dec_exact [OF a e]) (use assms in \<open>intro exact_ok; simp\<close>)
qed

lemma calculate_cost_exact:
  assumes "0 \<le> n" and "n \<le> 10 ^ 12" and "0 \<le> m" and "m \<le> 10 ^ 12"
  shows "calculate_cost n m = Inr (exact_cost n m)"
proof -
  define K where "K = 3 * n + 15 * m"
  have n60: "n \<le> 2 ^ 60" and m60: "m \<le> 2 ^ 60"
    using assms by simp_all
  note v = calculate_cost_value [OF assms(1) n60 assms(3) m60]
  have xi: "(of_int n / 1000 * (3 / 1000) :: rat) = of_int (3 * n) / 10 ^ 6"
    and xo: "(of_int m / 1000 * (15 / 1000) :: rat) = of_int (15 * m) / 10 ^ 6"
    and xt: "exact_total n m = of_int K / 10 ^ 6"
    and xw: "exact_total n m * 100 * 7 = of_int (7 * K) / 10 ^ 4"
    and xm: "exact_total n m * 100 * 30 = of_int (30 * K) / 10 ^ 4"
    by (simp_all add: exact_total_def K_def field_simps)
  have gi: "(of_int (3 * n) / 10 ^ 6 :: rat) * 10 ^ 6 = of_int (3 * n)"
    and go: "(of_int (15 * m) / 10 ^ 6 :: rat) * 10 ^ 6 = of_int (15 * m)"
    and gt: "(of_int K / 10 ^ 6 :: rat) * 10 ^ 6 = of_int K"
    and gw: "(of_int (7 * K) / 10 ^ 4 :: rat) * 10 ^ 4 = of_int (7 * K)"
    and gm: "(of_int (30 * K) / 10 ^ 4 :: rat) * 10 ^ 4 = of_int (30 * K)"
    by simp_all
  have ri: "round_dec (input_cost_value n) 6 = rnd (of_int (3 * n) / 10 ^ 6)"
    by (rule round_dec_exact [OF v(2) gi]) (use assms in \<open>intro exact_ok; simp\<close>)
  have ro: "round_dec (output_cost_value m) 6 = rnd (of_int (15 * m) / 10 ^ 6)"
    by (rule round_dec_exact [OF v(3) go]) (use assms in \<open>intro exact_ok; simp\<close>)
  have rt: "round_dec (total_cost_value n m) 6 = rnd (of_int K / 10 ^ 6)"
    by (rule round_dec_exact [OF v(4) [folded K_def] gt])
      (use assms in \<open>intro exact_ok; simp add: K_def\<close>)
  have rw: "round_dec (weekly_cost_value n m) 4 = rnd (of_int (7 * K) / 10 ^ 4)"
    by (rule round_dec_exact [OF v(5) [folded K_def] gw])
      (use assms in \<open>intro exact_ok; simp add: K_def\<close>)
  have rm: "round_dec (monthly_cost_value n m) 4 = rnd (of_int (30 * K) / 10 ^ 4)"
    by (rule round_dec_exact [OF v(6) [folded K_def] gm])
      (use assms in \<open>intro exact_ok; simp add: K_def\<close>)
  have di: "decimal (of_int n / 1000 * (3 / 1000)) 6 = of_int (3 * n) / 10 ^ 6"
    unfolding xi by (rule decimal_grid [OF gi])
  have do: "decimal (of_int m / 1000 * (15 / 1000)) 6 = of_int (15 * m) / 10 ^ 6"
    unfolding xo by (rule decimal_grid [OF go])
  have dt: "decimal (exact_total n m) 6 = of_int K / 10 ^ 6"
    unfolding xt by (rule decimal_grid [OF gt])
  have dw: "decimal (exact_total n m * 100 * 7) 4 = of_int (7 * K) / 10 ^ 4"
    unfolding xw by (rule decimal_grid [OF gw])
  have dm: "decimal (exact_total n m * 100 * 30) 4 = of_int (30 * K) / 10 ^ 4"
    unfolding xm by (rule decimal_grid [OF gm])
  show ?thesis
    by (simp only: v(1) exact_cost_def ri ro rt rw rm di do dt dw dm)
qed

subsection \<open>The input cost of \<open>10\<^sup>1\<^sup>5 + 2\<close> tokens and of twice as many\<close>

lemma price_double: "rnd (3 / 1000) = 3458764513820541 / 1152921504606846976"
proof -
  have "rnd (3 / 1000) = of_int 6917529027641082 * 2 powi ((- 9) - 52)"
    by (rule rnd_eqI) (simp_all add: power_int_minus)
  then show ?thesis
    by (simp add: power_int_minus)
qed

lemma quotient_one: "rnd (of_int 1000000000000002 / 1000) = 512000000000001 / 512"
proof -
  have "rnd (of_int 1000000000000002 / 1000) = of_int 8192000000000016 * 2 powi (39 - 52)"
    by (rule rnd_eqI) (simp_all add: power_int_minus)
  then show ?thesis
    by (simp add: power_int_minus)
qed

lemma product_one: "rnd (512000000000001 / 512 * (3458764513820541 / 1152921504606846976)) = 1572864000000003 / 524288"
proof -
  have "rnd (512000000000001 / 512 * (3458764513820541 / 1152921504606846976)) = of_int 6291456000000012 * 2 powi (31 - 52)"
    by (rule rnd_eqI) (simp_all add: power_int_minus)
  then show ?thesis
    by (simp add: power_int_minus)
qed

lemma nearest_one: "rne (1572864000000003 / 524288 * 10 ^ 6) = 3000000000000006"
  by (rule rne_near) simp

lemma rounded_one: "rnd (of_int 3000000000000006 / 10 ^ 6) = 6291456000000013 / 2097152"
proof -
  have "rnd (of_int 3000000000000006 / 10 ^ 6) = of_int 6291456000000013 * 2 powi (31 - 52)"
    by (rule rnd_eqI) (simp_all add: power_int_minus)
  then show ?thesis
    by (simp add: power_int_minus)
qed

lemma input_cost_one: "round_dec (input_cost_value 1000000000000002) 6 = 6291456000000013 / 2097152"
  by (simp only: input_cost_value_def round_dec_def decimal_def
      quotient_one price_double product_one nearest_one rounded_one)

lemma quotient_two: "rnd (of_int 2000000000000004 / 1000) = 512000000000001 / 256"
proof -
  have "rnd (of_int 2000000000000004 / 1000) = of_int 8192000000000016 * 2 powi (40 - 52)"
    by (rule rnd_eqI) (simp_all add: power_int_minus)
  then show ?thesis
    by (simp add: power_int_minus)
qed

lemma product_two: "rnd (512000000000001 / 256 * (3458764513820541 / 1152921504606846976)) = 1572864000000003 / 262144"
proof -
  have "rnd (512000000000001 / 256 * (3458764513820541 / 1152921504606846976)) = of_int 6291456000000012 * 2 powi (32 - 52)"
    by (rule rnd_eqI) (simp_all add: power_int_minus)
  then show ?thesis
    by (simp add: power_int_minus)
qed

lemma nearest_two: "rne (1572864000000003 / 262144 * 10 ^ 6) = 6000000000000011"
  by (rule rne_near) simp

lemma rounded_two: "rnd (of_int 6000000000000011 / 10 ^ 6) = 1572864000000003 / 262144"
proof -
  have "rnd (of_int 6000000000000011 / 10 ^ 6) = of_int 6291456000000012 * 2 powi (32 - 52)"
    by (rule rnd_eqI) (simp_all add: power_int_minus)
  then show ?thesis
    by (simp add: power_int_minus)
qed

lemma input_cost_two: "round_dec (input_cost_value 2000000000000004) 6 = 1572864000000003 / 262144"
  by (simp only: input_cost_value_def round_dec_def decimal_def
      quotient_two price_double product_two nearest_two rounded_two)

lemma rne_numeral [simp]: "rne (numeral k) = numeral k"
  using rne_of_int [of "numeral k"] by simp

lemma reported_input_cost_value:
  assumes "0 \<le> x" and "x \<le> 2 ^ 60"
  shows "reported_input_cost x = Inr (Finite (round_dec (input_cost_value x) 6))"
proof -
  define t where "t = max 50 (min (3 * x div 5) 4000)"
  have "x < 2 ^ 1023"
    using assms(2) by simp
  then have e: "estimate_output_tokens x = Inr t"
    using estimate_output_tokens_value [OF assms(1)] by (simp add: t_def)
  have "0 \<le> t" and "t \<le> 2 ^ 60"
    by (simp_all add: t_def)
  from calculate_cost_value(1) [OF assms this] show ?thesis
    by (simp add: reported_input_cost_def e bind_def)
qed

section \<open>The estimators and the handler\<close>

text \<open>
  In the examples below the sanitiser is \<open>map char_of\<close> where the name is made of ASCII
  letters, digits and inner dots, which \<open>secure_filename\<close> returns as it is, and
  \<open>werkzeug_secure_filename id\<close> where the name holds ideographs, which the normal form
  leaves alone and the sanitiser drops.
\<close>

lemma sanitised_chars:
  "char_of (112::nat) = CHR ''p''" "char_of (110::nat) = CHR ''n''" "char_of (103::nat) = CHR ''g''"
  "char_of (100::nat) = CHR ''d''" "char_of (102::nat) = CHR ''f''"
  by code_simp+

lemma png_skipped:
  "\<not> list_ex (endswith (lower ''png'')) image_exts"
  "\<not> endswith (lower ''png'') ''.pdf''" "\<not> endswith (lower ''png'') ''.txt''"
  by code_simp+

lemma pdf_skipped:
  "\<not> list_ex (endswith (lower ''pdf'')) image_exts"
  "\<not> endswith (lower ''pdf'') ''.pdf''" "\<not> endswith (lower ''pdf'') ''.txt''"
  by code_simp+

lemma process_file_skipped:
  assumes "sf (filename f) = n"
    and "\<not> list_ex (endswith (lower n)) image_exts"
    and "\<not> endswith (lower n) ''.pdf''" and "\<not> endswith (lower n) ''.txt''"
  shows "process_file sf acc f = acc"
  using assms by (simp add: process_file_def Let_def)

lemma secure_filename_png:
  "werkzeug_secure_filename id ([26085, 26412, 35486] @ ascii ''.png'') = ''png''"
  by (simp add: werkzeug_secure_filename_def ascii_def is_space_def filename_char_def
      strip_chars_def sanitised_chars)

lemma secure_filename_pdf:
  "werkzeug_secure_filename id ([26085, 26412, 35486] @ ascii ''.pdf'') = ''pdf''"
  by (simp add: werkzeug_secure_filename_def ascii_def is_space_def filename_char_def
      strip_chars_def sanitised_chars)

lemma int_truediv_overflow:
  "int_truediv (10 ^ 312) 1000 =
     Inl (OverflowError ''integer division result too large for a float'')"
proof -
  let ?x = "10 ^ 309 :: rat"
  have "(2::rat) powi (- 1022) \<le> 2 powi 0"
    by (rule two_powi_mono) simp
  then have "2 powi (- 1022) \<le> \<bar>?x\<bar>"
    by simp
  from rnd_error [OF this] have "?x - ?x / 2 ^ 53 \<le> rnd ?x"
    by (simp add: abs_le_iff)
  moreover have "(2::rat) ^ 1024 \<le> ?x - ?x / 2 ^ 53"
    by simp
  ultimately have "(2::rat) ^ 1024 \<le> \<bar>rnd ?x\<bar>"
    by linarith
  moreover have "(of_int (10 ^ 312) :: rat) / of_int 1000 = ?x"
    by simp
  ultimately show ?thesis
    unfolding int_truediv_def Let_def by simp
qed

lemma respond_value:
  assumes "0 < total_input_tokens bd" and "total_input_tokens bd \<le> 10 ^ 12"
  shows "respond bd =
    Inr (Success \<lparr>res_model_id = model_id,
                   tokens_input = total_input_tokens bd,
                   tokens_output = max 50 (min (3 * total_input_tokens bd div 5) 4000),
                   tokens_breakdown = bd,
                   cost = exact_cost (total_input_tokens bd)
                     (max 50 (min (3 * total_input_tokens bd div 5) 4000)),
                   pricing_input = input_price_per_1k,
                   pricing_output = output_price_per_1k\<rparr>, 200)"
proof -
  define n where "n = total_input_tokens bd"
  define t where "t = max 50 (min (3 * n div 5) 4000)"
  have n: "0 \<le> n" "n < 2 ^ 1023" "n \<noteq> 0" "n \<le> 10 ^ 12"
    using assms by (simp_all add: n_def)
  have e: "estimate_output_tokens n = Inr t"
    using estimate_output_tokens_value [OF n(1,2)] by (simp add: t_def)
  have "0 \<le> t" and "t \<le> 10 ^ 12"
    by (simp_all add: t_def)
  from calculate_cost_exact [OF n(1,4) this]
  have c: "calculate_cost n t = Inr (exact_cost n t)" .
  show ?thesis
    using n(3) by (simp add: respond_def n_def [symmetric] e c t_def [symmetric])
qed

text \<open>
  C1 as stated fails: \<open>int()\<close> truncates, it does not round. For 86 tokens the product
  is 51.6, the code returns 51 and the formula of the specification 52.
\<close>

theorem estimate_output_tokens_round_counterexample:
  "estimate_output_tokens 86 = Inr 51 \<and> spec_estimate_output_tokens 86 = 52"
proof -
  have "estimate_output_tokens 86 = Inr 51"
    using estimate_output_tokens_value [of 86] by simp
  moreover have "rne (of_int 86 * (6 / 10)) = 52"
    by (rule rne_near) simp
  ultimately show ?thesis
    by (simp add: spec_estimate_output_tokens_def)
qed

text \<open>
  C1, amended. For every non-negative \<open>input_tokens\<close> below \<open>2\<^sup>1\<^sup>0\<^sup>2\<^sup>3\<close> (a larger
  integer has no double), \<open>estimate_output_tokens\<close> returns
  \<open>clamp(floor(input_tokens * 0.6), 50, 4000)\<close>: the double product, truncated, is the
  exact floor. The result lies in [50, 4000]; it is 50 for 0 tokens and 4000 for 10000.
\<close>

theorem estimate_output_tokens_truncates:
  assumes "0 \<le> n" and "n < 2 ^ 1023"
  shows "estimate_output_tokens n = Inr (max 50 (min \<lfloor>of_int n * (6 / 10) :: rat\<rfloor> 4000)) \<and>
    (\<exists>t. estimate_output_tokens n = Inr t \<and> 50 \<le> t \<and> t \<le> 4000) \<and>
    estimate_output_tokens 0 = Inr 50 \<and>
    estimate_output_tokens 10000 = Inr 4000"
proof -
  have 1: "estimate_output_tokens n = Inr (max 50 (min \<lfloor>of_int n * (6 / 10) :: rat\<rfloor> 4000))"
    using estimate_output_tokens_value [OF assms] by (simp only: floor_six_tenths)
  have 2: "estimate_output_tokens 0 = Inr 50"
    using estimate_output_tokens_value [of 0] by simp
  have 3: "estimate_output_tokens 10000 = Inr 4000"
    using estimate_output_tokens_value [of 10000] by simp
  from 1 2 3 show ?thesis
    by simp
qed

theorem estimate_output_tokens_truncates_witness:
  "(0::int) \<le> 86 \<and> (86::int) < 2 ^ 1023 \<and> estimate_output_tokens 86 = Inr 51"
proof -
  have "\<lfloor>of_int 86 * (6 / 10) :: rat\<rfloor> = 51"
    by (simp only: floor_six_tenths)
  with estimate_output_tokens_truncates [of 86] show ?thesis
    by simp
qed

text \<open>
  C2 as stated fails: not every non-negative count has a cost. The quotient of \<open>10\<^sup>3\<^sup>1\<^sup>2\<close>
  tokens by 1000 is beyond the largest double, the division raises \<open>OverflowError\<close> and
  \<open>calculate_cost\<close> returns no field at all.
\<close>

theorem calculate_cost_overflow_counterexample:
  "calculate_cost (10 ^ 312) 50 =
     Inl (OverflowError ''integer division result too large for a float'')"
  by (simp only: calculate_cost_def int_truediv_overflow bind_Inl)

text \<open>
  C2, amended. For token counts from 0 to \<open>10\<^sup>1\<^sup>2\<close>, \<open>calculate_cost\<close> returns the five
  fields of the specification, each the double nearest to the decimal that exact arithmetic
  gives: \<open>(input_tokens / 1000) * 0.003\<close> rounded to 6 places, \<open>(output_tokens / 1000) * 0.015\<close>
  rounded to 6 places, the unrounded sum rounded to 6 places, and the sum times 100 times
  7 (times 30) rounded to 4 places. It returns a record for all counts up to \<open>2\<^sup>6\<^sup>0\<close>.
\<close>

theorem calculate_cost_correct:
  "(0 \<le> n \<and> n \<le> 10 ^ 12 \<and> 0 \<le> m \<and> m \<le> 10 ^ 12 \<longrightarrow>
      calculate_cost n m = Inr (exact_cost n m)) \<and>
   (0 \<le> n \<and> n \<le> 2 ^ 60 \<and> 0 \<le> m \<and> m \<le> 2 ^ 60 \<longrightarrow>
      (\<exists>r. calculate_cost n m = Inr r))"
  using calculate_cost_exact [of n m] calculate_cost_value(1) [of n m]
  by blast

text \<open>
  13 input and 50 output tokens: 0.000039, 0.00075, 0.000789, 0.5523 and 2.367.
\<close>

theorem calculate_cost_correct_witness:
  "(0::int) \<le> 13 \<and> (13::int) \<le> 10 ^ 12 \<and> (13::int) \<le> 2 ^ 60 \<and>
   (0::int) \<le> 50 \<and> (50::int) \<le> 10 ^ 12 \<and> (50::int) \<le> 2 ^ 60 \<and>
   calculate_cost 13 50 =
     Inr \<lparr>cost_input = Finite (rnd (39 / 10 ^ 6)),
          cost_output = Finite (rnd (750 / 10 ^ 6)),
          total_per_request = Finite (rnd (789 / 10 ^ 6)),
          weekly_estimate = Finite (rnd (5523 / 10 ^ 4)),
          monthly_estimate = Finite (rnd (23670 / 10 ^ 4))\<rparr>"
proof -
  have c: "calculate_cost 13 50 = Inr (exact_cost 13 50)"
    using calculate_cost_correct [of 13 50] by simp
  have v: "exact_cost 13 50 =
     \<lparr>cost_input = Finite (rnd (39 / 10 ^ 6)),
      cost_output = Finite (rnd (750 / 10 ^ 6)),
      total_per_request = Finite (rnd (789 / 10 ^ 6)),
      weekly_estimate = Finite (rnd (5523 / 10 ^ 4)),
      monthly_estimate = Finite (rnd (23670 / 10 ^ 4))\<rparr>"
    by (simp add: exact_cost_def exact_total_def decimal_def)
  from c v show ?thesis
    by simp
qed

text \<open>
  C3. When the handler reaches the sum of the three categories and the sum is 0, the
  response is the failure object with the message \<open>Please enter a prompt or upload files\<close>
  and status 400; the failure object has no token or cost field. The sum is never negative,
  and when it is positive the response is not the validation failure: its status is 200 or
  500, and up to \<open>10\<^sup>1\<^sup>2\<close> tokens it is the success object with the breakdown, the output
  estimate and the cost.
\<close>

theorem validation_failure:
  assumes "with_text req (from_files secure_filename req) = Inr bd"
  shows "0 \<le> total_input_tokens bd \<and>
    (total_input_tokens bd = 0 \<longrightarrow>
       calculate secure_filename req = (Failure ''Please enter a prompt or upload files'', 400)) \<and>
    (0 < total_input_tokens bd \<longrightarrow>
       snd (calculate secure_filename req) \<noteq> 400 \<and>
       fst (calculate secure_filename req) \<noteq> Failure ''Please enter a prompt or upload files'') \<and>
    (0 < total_input_tokens bd \<and> total_input_tokens bd \<le> 10 ^ 12 \<longrightarrow>
       calculate secure_filename req =
         (Success \<lparr>res_model_id = model_id,
                   tokens_input = total_input_tokens bd,
                   tokens_output = max 50 (min (3 * total_input_tokens bd div 5) 4000),
                   tokens_breakdown = bd,
                   cost = exact_cost (total_input_tokens bd)
                     (max 50 (min (3 * total_input_tokens bd div 5) 4000)),
                   pricing_input = input_price_per_1k,
                   pricing_output = output_price_per_1k\<rparr>, 200))"
proof -
  have "nonneg bd"
    using assms from_files_nonneg with_text_nonneg by blast
  then have 1: "0 \<le> total_input_tokens bd"
    by (simp add: nonneg_def total_input_tokens_def)
  have 2: "calculate secure_filename req = (Failure ''Please enter a prompt or upload files'', 400)"
    if "total_input_tokens bd = 0"
    using that by (simp add: calculate_eq [OF assms] respond_def)
  have 3: "snd (calculate secure_filename req) \<noteq> 400 \<and>
       fst (calculate secure_filename req) \<noteq> Failure ''Please enter a prompt or upload files''"
    if "0 < total_input_tokens bd"
  proof (cases "respond bd")
    case (Inl e)
    then show ?thesis
      by (simp add: calculate_eq [OF assms])
  next
    case (Inr r)
    with that respond_status [of bd r] show ?thesis
      by (auto simp: calculate_eq [OF assms])
  qed
  have 4: "calculate secure_filename req =
         (Success \<lparr>res_model_id = model_id,
                   tokens_input = total_input_tokens bd,
                   tokens_output = max 50 (min (3 * total_input_tokens bd div 5) 4000),
                   tokens_breakdown = bd,
                   cost = exact_cost (total_input_tokens bd)
                     (max 50 (min (3 * total_input_tokens bd div 5) 4000)),
                   pricing_input = input_price_per_1k,
                   pricing_output = output_price_per_1k\<rparr>, 200)"
    if "0 < total_input_tokens bd" "total_input_tokens bd \<le> 10 ^ 12"
    by (simp add: calculate_eq [OF assms] respond_value [OF that])
  from 1 2 3 4 show ?thesis by blast
qed

text \<open>
  A request without text and files is rejected; a JSON body with the text \<open>ab\<close> is not.
\<close>

theorem validation_failure_witness:
  "with_text \<lparr>files = [], is_json = False, json = Inr JNull, form = []\<rparr>
     (from_files (map char_of) \<lparr>files = [], is_json = False, json = Inr JNull, form = []\<rparr>) =
     Inr no_tokens \<and>
   total_input_tokens no_tokens = 0 \<and>
   calculate (map char_of) \<lparr>files = [], is_json = False, json = Inr JNull, form = []\<rparr> =
     (Failure ''Please enter a prompt or upload files'', 400) \<and>
   with_text \<lparr>files = [], is_json = True,
       json = Inr (JDict [(ascii ''text_input'', JStr (ascii ''ab''))]), form = []\<rparr>
     (from_files (map char_of) \<lparr>files = [], is_json = True,
       json = Inr (JDict [(ascii ''text_input'', JStr (ascii ''ab''))]), form = []\<rparr>) =
     Inr \<lparr>text_tokens = 1, image_tokens = 0, document_tokens = 0\<rparr> \<and>
   0 < total_input_tokens \<lparr>text_tokens = 1, image_tokens = 0, document_tokens = 0\<rparr> \<and>
   total_input_tokens \<lparr>text_tokens = 1, image_tokens = 0, document_tokens = 0\<rparr> \<le> 10 ^ 12 \<and>
   calculate (map char_of) \<lparr>files = [], is_json = True,
       json = Inr (JDict [(ascii ''text_input'', JStr (ascii ''ab''))]), form = []\<rparr> =
     (Success \<lparr>res_model_id = model_id, tokens_input = 1, tokens_output = 50,
               tokens_breakdown = \<lparr>text_tokens = 1, image_tokens = 0, document_tokens = 0\<rparr>,
               cost = exact_cost 1 50,
               pricing_input = input_price_per_1k,
               pricing_output = output_price_per_1k\<rparr>, 200)"
proof -
  let ?e = "\<lparr>files = [], is_json = False, json = Inr JNull, form = []\<rparr>"
  let ?t = "\<lparr>files = [], is_json = True,
       json = Inr (JDict [(ascii ''text_input'', JStr (ascii ''ab''))]), form = []\<rparr>"
  let ?bd = "\<lparr>text_tokens = 1, image_tokens = 0, document_tokens = 0\<rparr>"
  have 1: "with_text ?e (from_files (map char_of) ?e) = Inr no_tokens"
    by (simp add: with_text_def from_files_def)
  have 2: "total_input_tokens no_tokens = 0"
    by (simp add: total_input_tokens_def no_tokens_def)
  have 3: "with_text ?t (from_files (map char_of) ?t) = Inr ?bd"
    by (simp add: with_text_def from_files_def dict_get_def set_text_def
        estimate_text_tokens_def strip_def ascii_def is_space_def no_tokens_def)
  have 4: "total_input_tokens ?bd = 1"
    by (simp add: total_input_tokens_def)
  from validation_failure [OF 1] validation_failure [OF 3] 1 2 3 4 show ?thesis
    by simp
qed

text \<open>
  C4. A non-empty text supplied in the field \<open>text_input\<close> of the JSON body or of the form
  sets \<open>text_tokens\<close> to \<open>estimate_text_tokens(text_input)\<close>, whatever the uploaded
  \<open>.txt\<close> files had contributed; \<open>image_tokens\<close> and \<open>document_tokens\<close> keep their
  values, also in the breakdown of a successful response.
\<close>

theorem text_input_overwrites:
  assumes "supplied_text req t" and "t \<noteq> []"
  shows "estimate_text_tokens (JStr t) = Inr (max 1 (int (length (strip t)) div 4)) \<and>
    with_text req bd =
      Inr \<lparr>text_tokens = max 1 (int (length (strip t)) div 4),
           image_tokens = image_tokens bd,
           document_tokens = document_tokens bd\<rparr> \<and>
    (\<forall>r st. calculate secure_filename req = (Success r, st) \<longrightarrow>
       tokens_breakdown r =
         \<lparr>text_tokens = max 1 (int (length (strip t)) div 4),
          image_tokens = image_tokens (from_files secure_filename req),
          document_tokens = document_tokens (from_files secure_filename req)\<rparr>)"
proof -
  have est: "estimate_text_tokens (JStr t) = Inr (max 1 (int (length (strip t)) div 4))"
    using assms(2) by (simp add: estimate_text_tokens_def)
  have step: "with_text req b =
      Inr \<lparr>text_tokens = max 1 (int (length (strip t)) div 4),
           image_tokens = image_tokens b,
           document_tokens = document_tokens b\<rparr>" for b
    using assms(2) by (simp add: supplied_text_with_text [OF assms(1)] set_text_def est)
  from est step [of bd] calculate_Success [OF step [of "from_files secure_filename req"]]
  show ?thesis by blast
qed

text \<open>
  A form with the text \<open>ab\<close> and an uploaded \<open>notes.txt\<close> worth 3 tokens: the text
  category becomes 1, and the response reports 1 input token.
\<close>

theorem text_input_overwrites_witness:
  "supplied_text
     \<lparr>files = [(ascii ''files'', \<lparr>filename = ascii ''notes.txt'',
         content = [0x68, 0x65, 0x6C, 0x6C, 0x6F, 0x20, 0x77, 0x6F, 0x72, 0x6C, 0x64, 0x21]\<rparr>)],
      is_json = False, json = Inr JNull,
      form = [(ascii ''text_input'', ascii ''ab'')]\<rparr> (ascii ''ab'') \<and>
   ascii ''ab'' \<noteq> [] \<and>
   from_files (map char_of)
     \<lparr>files = [(ascii ''files'', \<lparr>filename = ascii ''notes.txt'',
         content = [0x68, 0x65, 0x6C, 0x6C, 0x6F, 0x20, 0x77, 0x6F, 0x72, 0x6C, 0x64, 0x21]\<rparr>)],
      is_json = False, json = Inr JNull,
      form = [(ascii ''text_input'', ascii ''ab'')]\<rparr> =
     \<lparr>text_tokens = 3, image_tokens = 0, document_tokens = 0\<rparr> \<and>
   with_text
     \<lparr>files = [(ascii ''files'', \<lparr>filename = ascii ''notes.txt'',
         content = [0x68, 0x65, 0x6C, 0x6C, 0x6F, 0x20, 0x77, 0x6F, 0x72, 0x6C, 0x64, 0x21]\<rparr>)],
      is_json = False, json = Inr JNull,
      form = [(ascii ''text_input'', ascii ''ab'')]\<rparr>
     \<lparr>text_tokens = 3, image_tokens = 0, document_tokens = 0\<rparr> =
     Inr \<lparr>text_tokens = 1, image_tokens = 0, document_tokens = 0\<rparr> \<and>
   calculate (map char_of)
     \<lparr>files = [(ascii ''files'', \<lparr>filename = ascii ''notes.txt'',
         content = [0x68, 0x65, 0x6C, 0x6C, 0x6F, 0x20, 0x77, 0x6F, 0x72, 0x6C, 0x64, 0x21]\<rparr>)],
      is_json = False, json = Inr JNull,
      form = [(ascii ''text_input'', ascii ''ab'')]\<rparr> =
     (Success \<lparr>res_model_id = model_id, tokens_input = 1, tokens_output = 50,
               tokens_breakdown = \<lparr>text_tokens = 1, image_tokens = 0, document_tokens = 0\<rparr>,
               cost = exact_cost 1 50,
               pricing_input = input_price_per_1k,
               pricing_output = output_price_per_1k\<rparr>, 200)"
proof -
  let ?r = "\<lparr>files = [(ascii ''files'', \<lparr>filename = ascii ''notes.txt'',
         content = [0x68, 0x65, 0x6C, 0x6C, 0x6F, 0x20, 0x77, 0x6F, 0x72, 0x6C, 0x64, 0x21]\<rparr>)],
      is_json = False, json = Inr JNull,
      form = [(ascii ''text_input'', ascii ''ab'')]\<rparr>"
  let ?bd = "\<lparr>text_tokens = 1, image_tokens = 0, document_tokens = 0\<rparr>"
  have 1: "supplied_text ?r (ascii ''ab'')"
    by (simp add: supplied_text_def)
  have 2: "ascii ''ab'' \<noteq> []"
    by (simp add: ascii_def)
  have 3: "from_files (map char_of) ?r = \<lparr>text_tokens = 3, image_tokens = 0, document_tokens = 0\<rparr>"
    by code_simp
  have 4: "max 1 (int (length (strip (ascii ''ab''))) div 4) = 1"
    by (simp add: strip_def ascii_def is_space_def)
  from text_input_overwrites [OF 1 2, of "\<lparr>text_tokens = 3, image_tokens = 0, document_tokens = 0\<rparr>"]
  have 5: "with_text ?r \<lparr>text_tokens = 3, image_tokens = 0, document_tokens = 0\<rparr> = Inr ?bd"
    by (simp add: 4)
  have 6: "total_input_tokens ?bd = 1"
    by (simp add: total_input_tokens_def)
  have "respond ?bd =
     Inr (Success \<lparr>res_model_id = model_id, tokens_input = 1, tokens_output = 50,
               tokens_breakdown = ?bd, cost = exact_cost 1 50,
               pricing_input = input_price_per_1k,
               pricing_output = output_price_per_1k\<rparr>, 200)"
    using respond_value [of ?bd] by (simp add: 6)
  then have 7: "calculate (map char_of) ?r =
     (Success \<lparr>res_model_id = model_id, tokens_input = 1, tokens_output = 50,
               tokens_breakdown = ?bd, cost = exact_cost 1 50,
               pricing_input = input_price_per_1k,
               pricing_output = output_price_per_1k\<rparr>, 200)"
    using 5 by (simp add: calculate_def 3)
  from 1 2 3 5 7 show ?thesis
    by simp
qed

text \<open>
  C5 as stated fails: the extension is looked for in the sanitised name, not in the name of
  the upload. The sanitiser drops the ideographs and then the leading dot of a file named by
  three ideographs and \<open>.pdf\<close>; what is left is \<open>pdf\<close>, no case of the loop applies, and the
  three \<open>/Page\<close> of the content count for nothing.
\<close>

theorem pdf_name_counterexample:
  "werkzeug_secure_filename id ([26085, 26412, 35486] @ ascii ''.pdf'') = ''pdf'' \<and>
   occurrences page_marker [0x2F, 0x50, 0x61, 0x67, 0x65, 0x2F, 0x50, 0x61, 0x67, 0x65, 0x73, 0x2F, 0x50, 0x61, 0x67, 0x65] = 3 \<and>
   process_file (werkzeug_secure_filename id) no_tokens
     \<lparr>filename = [26085, 26412, 35486] @ ascii ''.pdf'',
      content = [0x2F, 0x50, 0x61, 0x67, 0x65, 0x2F, 0x50, 0x61, 0x67, 0x65, 0x73, 0x2F, 0x50, 0x61, 0x67, 0x65]\<rparr> = no_tokens"
proof -
  let ?f = "\<lparr>filename = [26085, 26412, 35486] @ ascii ''.pdf'',
      content = [0x2F, 0x50, 0x61, 0x67, 0x65, 0x2F, 0x50, 0x61, 0x67, 0x65, 0x73, 0x2F, 0x50, 0x61, 0x67, 0x65]\<rparr>"
  have "werkzeug_secure_filename id (filename ?f) = ''pdf''"
    by (simp only: upload.select_convs secure_filename_pdf)
  note 1 = process_file_skipped [where sf = "werkzeug_secure_filename id" and f = ?f
      and n = "''pdf''" and acc = no_tokens, OF this pdf_skipped]
  have 2: "occurrences page_marker [0x2F, 0x50, 0x61, 0x67, 0x65, 0x2F, 0x50, 0x61, 0x67, 0x65, 0x73, 0x2F, 0x50, 0x61, 0x67, 0x65] = 3"
    by (simp add: occurrences_Cons page_marker_def)
  from 1 2 secure_filename_pdf show ?thesis
    by blast
qed

text \<open>
  C5, amended. For a file whose sanitised, lower-cased name
  \<open>secure_filename(file.filename).lower()\<close> ends in \<open>.pdf\<close>, the document tokens grow
  by \<open>max(1, n) * 500\<close>, where \<open>n\<close> is the number of occurrences of the byte pattern
  \<open>/Page\<close> in the content: 1500 for three occurrences, 500 for none. A scan that raises
  yields one page; \<open>count_pdf_pages\<close> returns a number in every case.
\<close>

theorem pdf_file_tokens:
  "count_pdf_pages (Some bytes) = max 1 (int (occurrences page_marker bytes)) \<and>
   count_pdf_pages None = 1 \<and>
   (endswith (lower (secure_filename (filename f))) ''.pdf'' \<longrightarrow>
      process_file secure_filename acc f =
        acc\<lparr>document_tokens :=
              document_tokens acc + max 1 (int (occurrences page_marker (content f))) * 500\<rparr> \<and>
      (occurrences page_marker (content f) = 3 \<longrightarrow>
         process_file secure_filename acc f =
           acc\<lparr>document_tokens := document_tokens acc + 1500\<rparr>) \<and>
      (occurrences page_marker (content f) = 0 \<longrightarrow>
         process_file secure_filename acc f =
           acc\<lparr>document_tokens := document_tokens acc + 500\<rparr>))"
proof -
  have pages: "count_pdf_pages (Some b) = max 1 (int (occurrences page_marker b))" for b
    by (simp add: count_pdf_pages_def scan_pages_def bytes_count_marker)
  have none: "count_pdf_pages None = 1"
    by (simp add: count_pdf_pages_def scan_pages_def)
  have pdf: "process_file secure_filename acc f =
        acc\<lparr>document_tokens :=
              document_tokens acc + max 1 (int (occurrences page_marker (content f))) * 500\<rparr>"
    if "endswith (lower (secure_filename (filename f))) ''.pdf''"
    using that pdf_not_image [OF that] by (simp add: process_file_def pages)
  show ?thesis
    using pages none pdf by simp
qed

text \<open>
  \<open>Report.pdf\<close> holds \<open>/Page/Pages/Page\<close>, \<open>empty.pdf\<close> nothing.
\<close>

theorem pdf_file_tokens_witness:
  "endswith (lower (map char_of (filename \<lparr>filename = ascii ''Report.pdf'',
      content = [0x2F, 0x50, 0x61, 0x67, 0x65, 0x2F, 0x50, 0x61, 0x67, 0x65, 0x73, 0x2F, 0x50, 0x61, 0x67, 0x65]\<rparr>))) ''.pdf'' \<and>
   occurrences page_marker (content \<lparr>filename = ascii ''Report.pdf'',
      content = [0x2F, 0x50, 0x61, 0x67, 0x65, 0x2F, 0x50, 0x61, 0x67, 0x65, 0x73, 0x2F, 0x50, 0x61, 0x67, 0x65]\<rparr>) = 3 \<and>
   process_file (map char_of) no_tokens \<lparr>filename = ascii ''Report.pdf'',
      content = [0x2F, 0x50, 0x61, 0x67, 0x65, 0x2F, 0x50, 0x61, 0x67, 0x65, 0x73, 0x2F, 0x50, 0x61, 0x67, 0x65]\<rparr> =
     \<lparr>text_tokens = 0, image_tokens = 0, document_tokens = 1500\<rparr> \<and>
   endswith (lower (map char_of (filename \<lparr>filename = ascii ''empty.pdf'', content = []\<rparr>))) ''.pdf'' \<and>
   occurrences page_marker (content \<lparr>filename = ascii ''empty.pdf'', content = []\<rparr>) = 0 \<and>
   process_file (map char_of) no_tokens \<lparr>filename = ascii ''empty.pdf'', content = []\<rparr> =
     \<lparr>text_tokens = 0, image_tokens = 0, document_tokens = 500\<rparr>"
proof -
  let ?f = "\<lparr>filename = ascii ''Report.pdf'',
      content = [0x2F, 0x50, 0x61, 0x67, 0x65, 0x2F, 0x50, 0x61, 0x67, 0x65, 0x73, 0x2F, 0x50, 0x61, 0x67, 0x65]\<rparr>"
  let ?g = "\<lparr>filename = ascii ''empty.pdf'', content = []\<rparr>"
  have 1: "endswith (lower (map char_of (filename ?f))) ''.pdf''"
    by code_simp
  have 2: "occurrences page_marker (content ?f) = 3"
    by (simp add: occurrences_Cons page_marker_def)
  have 3: "endswith (lower (map char_of (filename ?g))) ''.pdf''"
    by code_simp
  have 4: "occurrences page_marker (content ?g) = 0"
    by simp
  from pdf_file_tokens [of "[]" "map char_of" ?f no_tokens] 1 2
  have 5: "process_file (map char_of) no_tokens ?f =
      \<lparr>text_tokens = 0, image_tokens = 0, document_tokens = 1500\<rparr>"
    by (simp add: no_tokens_def)
  from pdf_file_tokens [of "[]" "map char_of" ?g no_tokens] 3 4
  have 6: "process_file (map char_of) no_tokens ?g =
      \<lparr>text_tokens = 0, image_tokens = 0, document_tokens = 500\<rparr>"
    by (simp add: no_tokens_def)
  from 1 2 3 4 5 6 show ?thesis by blast
qed

text \<open>
  C6. \<open>estimate_text_tokens\<close> returns 0 for \<open>None\<close> and for the empty string, and
  \<open>max(1, L // 4)\<close> for a non-empty string whose stripped length is \<open>L\<close>; for
  \<open>ab\<close> it returns 1.
\<close>

theorem estimate_text_tokens_correct:
  "estimate_text_tokens JNull = Inr 0 \<and>
   estimate_text_tokens (JStr []) = Inr 0 \<and>
   (s \<noteq> [] \<longrightarrow> estimate_text_tokens (JStr s) = Inr (max 1 (int (length (strip s)) div 4))) \<and>
   estimate_text_tokens (JStr (ascii ''ab'')) = Inr 1"
  by (simp add: estimate_text_tokens_def strip_def ascii_def is_space_def)

theorem estimate_text_tokens_correct_witness:
  "ascii ''Hello world'' \<noteq> [] \<and> estimate_text_tokens (JStr (ascii ''Hello world'')) = Inr 2"
  using estimate_text_tokens_correct [of "ascii ''Hello world''"]
  by (simp add: strip_def ascii_def is_space_def)

text \<open>
  C7 as stated fails: the extension is looked for in the sanitised name, not in the name of
  the upload. Of a file named by three ideographs and \<open>.png\<close> the sanitiser leaves \<open>png\<close>,
  no case of the loop applies and the file adds no image token.
\<close>

theorem image_name_counterexample:
  "werkzeug_secure_filename id ([26085, 26412, 35486] @ ascii ''.png'') = ''png'' \<and>
   process_file (werkzeug_secure_filename id) no_tokens
     \<lparr>filename = [26085, 26412, 35486] @ ascii ''.png'', content = []\<rparr> = no_tokens"
proof -
  let ?f = "\<lparr>filename = [26085, 26412, 35486] @ ascii ''.png'', content = []\<rparr>"
  have "werkzeug_secure_filename id (filename ?f) = ''png''"
    by (simp only: upload.select_convs secure_filename_png)
  from process_file_skipped [where sf = "werkzeug_secure_filename id" and f = ?f
      and n = "''png''" and acc = no_tokens, OF this png_skipped] secure_filename_png
  show ?thesis
    by blast
qed

text \<open>
  C7, amended. A file whose sanitised, lower-cased name
  \<open>secure_filename(file.filename).lower()\<close> ends in one of \<open>.jpg\<close>, \<open>.jpeg\<close>,
  \<open>.png\<close>, \<open>.gif\<close>, \<open>.webp\<close> adds exactly 1600 image tokens, whatever bytes it
  holds.
\<close>

theorem image_file_tokens:
  assumes "ext \<in> set image_exts"
    and "endswith (lower (secure_filename (filename f))) ext"
  shows "process_file secure_filename acc (f\<lparr>content := bytes\<rparr>) =
           acc\<lparr>image_tokens := image_tokens acc + 1600\<rparr>"
proof -
  from assms have "list_ex (endswith (lower (secure_filename (filename f)))) image_exts"
    by (auto simp: list_ex_iff)
  then show ?thesis
    by (simp add: process_file_def)
qed

text \<open>
  \<open>Photo.PNG\<close> with no bytes at all.
\<close>

theorem image_file_tokens_witness:
  "''.png'' \<in> set image_exts \<and>
   endswith (lower (map char_of (filename \<lparr>filename = ascii ''Photo.PNG'', content = [1, 2]\<rparr>))) ''.png'' \<and>
   process_file (map char_of) no_tokens \<lparr>filename = ascii ''Photo.PNG'', content = []\<rparr> =
     \<lparr>text_tokens = 0, image_tokens = 1600, document_tokens = 0\<rparr>"
proof -
  let ?f = "\<lparr>filename = ascii ''Photo.PNG'', content = [1, 2]\<rparr>"
  have 1: "''.png'' \<in> set image_exts"
    by (simp add: image_exts_def)
  have 2: "endswith (lower (map char_of (filename ?f))) ''.png''"
    by code_simp
  from image_file_tokens [where ext = "''.png''" and secure_filename = "map char_of"
      and f = ?f and acc = no_tokens and bytes = "[]", OF 1 2] 1 2
  show ?thesis
    by (simp add: no_tokens_def)
qed

text \<open>
  C8 as stated fails: an upload with a name and no content is not excluded. The zero-byte
  \<open>a.png\<close> counts 1600 image tokens.
\<close>

theorem empty_content_counterexample:
  "content \<lparr>filename = ascii ''a.png'', content = []\<rparr> = [] \<and>
   from_files (map char_of)
     \<lparr>files = [(ascii ''files'', \<lparr>filename = ascii ''a.png'', content = []\<rparr>)],
      is_json = False, json = Inr JNull, form = []\<rparr> =
     \<lparr>text_tokens = 0, image_tokens = 1600, document_tokens = 0\<rparr>"
  by code_simp

text \<open>
  C8, amended. Only the parts of the field \<open>files\<close> with a non-empty file name are
  estimated, so a part with an empty name contributes nothing; each category of the breakdown
  is the sum of what the estimated files contribute to it; a file whose name matches none of
  the image, \<open>.pdf\<close> and \<open>.txt\<close> cases leaves the breakdown as it is.
\<close>

theorem files_accumulate:
  "from_files secure_filename req =
     process_files secure_filename
       (filter (\<lambda>f. filename f \<noteq> []) (getlist (ascii ''files'') (files req))) \<and>
   process_files secure_filename fs =
     \<lparr>text_tokens = (\<Sum>f\<leftarrow>fs. text_tokens (process_file secure_filename no_tokens f)),
      image_tokens = (\<Sum>f\<leftarrow>fs. image_tokens (process_file secure_filename no_tokens f)),
      document_tokens = (\<Sum>f\<leftarrow>fs. document_tokens (process_file secure_filename no_tokens f))\<rparr> \<and>
   (\<not> list_ex (endswith (lower (secure_filename (filename g)))) image_exts \<and>
    \<not> endswith (lower (secure_filename (filename g))) ''.pdf'' \<and>
    \<not> endswith (lower (secure_filename (filename g))) ''.txt'' \<longrightarrow>
      process_file secure_filename acc g = acc)"
  using from_files_eq [of secure_filename req] process_files_sum [of secure_filename fs]
  by (simp add: process_file_def)

text \<open>
  \<open>notes.docx\<close> is skipped.
\<close>

theorem files_accumulate_witness:
  "\<not> list_ex (endswith (lower (map char_of (filename \<lparr>filename = ascii ''notes.docx'', content = [1, 2, 3]\<rparr>)))) image_exts \<and>
   \<not> endswith (lower (map char_of (filename \<lparr>filename = ascii ''notes.docx'', content = [1, 2, 3]\<rparr>))) ''.pdf'' \<and>
   \<not> endswith (lower (map char_of (filename \<lparr>filename = ascii ''notes.docx'', content = [1, 2, 3]\<rparr>))) ''.txt'' \<and>
   process_file (map char_of) no_tokens \<lparr>filename = ascii ''notes.docx'', content = [1, 2, 3]\<rparr> = no_tokens"
proof -
  let ?g = "\<lparr>filename = ascii ''notes.docx'', content = [1, 2, 3]\<rparr>"
  have 1: "\<not> list_ex (endswith (lower (map char_of (filename ?g)))) image_exts"
    by code_simp
  have 2: "\<not> endswith (lower (map char_of (filename ?g))) ''.pdf''"
    by code_simp
  have 3: "\<not> endswith (lower (map char_of (filename ?g))) ''.txt''"
    by code_simp
  from files_accumulate [where secure_filename = "map char_of" and g = ?g and acc = no_tokens
      and fs = "[]" and req = "\<lparr>files = [], is_json = False, json = Inr JNull, form = []\<rparr>"] 1 2 3
  show ?thesis
    by simp
qed

text \<open>
  C9 as stated fails for very large counts, where the error of the double product reaches
  the sixth decimal place: \<open>10\<^sup>1\<^sup>5 + 2\<close> tokens cost 3000000000.000006, twice as many
  6000000000.000011.
\<close>

theorem input_cost_doubling_counterexample:
  "reported_input_cost 1000000000000002 = Inr (Finite (6291456000000013 / 2097152)) \<and>
   reported_input_cost (2 * 1000000000000002) = Inr (Finite (1572864000000003 / 262144)) \<and>
   (1572864000000003 / 262144 :: rat) \<noteq> 2 * (6291456000000013 / 2097152)"
proof -
  have 1: "reported_input_cost 1000000000000002 = Inr (Finite (6291456000000013 / 2097152))"
    using reported_input_cost_value [of 1000000000000002] by (simp add: input_cost_one)
  have 2: "reported_input_cost 2000000000000004 = Inr (Finite (1572864000000003 / 262144))"
    using reported_input_cost_value [of 2000000000000004] by (simp add: input_cost_two)
  from 1 2 show ?thesis
    by simp
qed

text \<open>
  C9, amended. For every token count \<open>x\<close> from 0 to \<open>10\<^sup>1\<^sup>4\<close>, the reported input cost of
  \<open>2x\<close> tokens (with the output estimate derived again) is exactly twice the reported
  input cost of \<open>x\<close> tokens; both are the doubles nearest to \<open>3x / 10\<^sup>6\<close> and its double.
\<close>

theorem input_cost_doubles:
  assumes "0 \<le> x" and "x \<le> 10 ^ 14"
  shows "reported_input_cost x = Inr (Finite (rnd (of_int (3 * x) / 10 ^ 6))) \<and>
    reported_input_cost (2 * x) = Inr (Finite (2 * rnd (of_int (3 * x) / 10 ^ 6)))"
proof -
  have x60: "x \<le> 2 ^ 60" "2 * x \<le> 2 ^ 60" and x14: "x \<le> 2 * 10 ^ 14" "2 * x \<le> 2 * 10 ^ 14"
    and x2: "0 \<le> 2 * x"
    using assms by simp_all
  have 1: "reported_input_cost x = Inr (Finite (rnd (of_int (3 * x) / 10 ^ 6)))"
    by (simp only: reported_input_cost_value [OF assms(1) x60(1)]
        input_cost_exact [OF assms(1) x14(1)])
  have 2: "reported_input_cost (2 * x) = Inr (Finite (rnd (of_int (3 * (2 * x)) / 10 ^ 6)))"
    by (simp only: reported_input_cost_value [OF x2 x60(2)] input_cost_exact [OF x2 x14(2)])
  have "rnd (2 * (of_int (3 * x) / 10 ^ 6)) = 2 * rnd (of_int (3 * x) / 10 ^ 6)"
  proof (cases "x = 0")
    case True
    then show ?thesis by simp
  next
    case False
    with assms(1) have "1 \<le> x" by simp
    then have "(1::rat) \<le> of_int x" by simp
    then have "1 / 2 ^ 31 \<le> (of_int (3 * x) / 10 ^ 6 :: rat)"
      by simp
    then show ?thesis
      by (intro rnd_double small_normal)
  qed
  moreover have "(of_int (3 * (2 * x)) / 10 ^ 6 :: rat) = 2 * (of_int (3 * x) / 10 ^ 6)"
    by simp
  ultimately have "rnd (of_int (3 * (2 * x)) / 10 ^ 6) = 2 * rnd (of_int (3 * x) / 10 ^ 6)"
    by (simp only:)
  with 1 2 show ?thesis
    by (simp only:)
qed

theorem input_cost_doubles_witness:
  "(0::int) \<le> 13 \<and> (13::int) \<le> 10 ^ 14 \<and>
   reported_input_cost 13 = Inr (Finite (rnd (39 / 10 ^ 6))) \<and>
   reported_input_cost 26 = Inr (Finite (2 * rnd (39 / 10 ^ 6)))"
  using input_cost_doubles [of 13] by simp

text \<open>
  C10. When \<open>text_input\<close> is present and empty, in the JSON body or in the form, the
  breakdown computed from the files is left as it is, so the text tokens of uploaded
  \<open>.txt\<close> files are kept, also in a successful response. Whenever the text step changes
  the breakdown, the request carries a non-empty \<open>text_input\<close>.
\<close>

theorem empty_text_input_keeps_text_tokens:
  "(supplied_text req [] \<longrightarrow>
      with_text req bd = Inr bd \<and>
      (\<forall>r st. calculate secure_filename req = (Success r, st) \<longrightarrow>
         tokens_breakdown r = from_files secure_filename req)) \<and>
   (with_text req bd = Inr bd' \<and> bd' \<noteq> bd \<longrightarrow>
      (\<exists>t. t \<noteq> [] \<and> supplied_text req t))"
proof -
  have keep: "with_text req b = Inr b" if "supplied_text req []" for b
    by (simp add: supplied_text_with_text [OF that] set_text_def)
  have only: "\<exists>t. t \<noteq> [] \<and> supplied_text req t" if "with_text req bd = Inr bd'" "bd' \<noteq> bd"
  proof (cases "is_json req")
    case True
    with that obtain kvs where j: "json req = Inr (JDict kvs)"
      and s: "set_text (dict_get kvs (ascii ''text_input'') (JStr [])) bd = Inr bd'"
      by (auto simp: with_text_def bind_def split: sum.splits json.splits)
    from s that(2) obtain t where "dict_get kvs (ascii ''text_input'') (JStr []) = JStr t" "t \<noteq> []"
      by (auto simp: set_text_def estimate_text_tokens_def bind_def split: if_splits json.splits)
    then have "map_of kvs (ascii ''text_input'') = Some (JStr t)"
      by (auto simp: dict_get_def split: option.splits)
    with True j \<open>t \<noteq> []\<close> show ?thesis
      by (auto simp: supplied_text_def)
  next
    case False
    with that have s: "set_text (JStr (dict_get (form req) (ascii ''text_input'') [])) bd = Inr bd'"
      by (auto simp: with_text_def split: if_splits)
    with that(2) have "dict_get (form req) (ascii ''text_input'') [] \<noteq> []"
      by (auto simp: set_text_def split: if_splits)
    then obtain t where "map_of (form req) (ascii ''text_input'') = Some t" "t \<noteq> []"
      by (auto simp: dict_get_def split: option.splits)
    with False show ?thesis
      by (auto simp: supplied_text_def)
  qed
  from keep [of bd] calculate_Success [OF keep [of "from_files secure_filename req"]] only
  show ?thesis by blast
qed

text \<open>
  A form with an empty \<open>text_input\<close> and an uploaded \<open>notes.txt\<close> worth 3 tokens: the
  response reports the 3 tokens of the file. A form with the text \<open>ab\<close> changes a
  breakdown with 3 text tokens.
\<close>

theorem empty_text_input_keeps_text_tokens_witness:
  "supplied_text
     \<lparr>files = [(ascii ''files'', \<lparr>filename = ascii ''notes.txt'',
         content = [0x68, 0x65, 0x6C, 0x6C, 0x6F, 0x20, 0x77, 0x6F, 0x72, 0x6C, 0x64, 0x21]\<rparr>)],
      is_json = False, json = Inr JNull,
      form = [(ascii ''text_input'', [])]\<rparr> [] \<and>
   from_files (map char_of)
     \<lparr>files = [(ascii ''files'', \<lparr>filename = ascii ''notes.txt'',
         content = [0x68, 0x65, 0x6C, 0x6C, 0x6F, 0x20, 0x77, 0x6F, 0x72, 0x6C, 0x64, 0x21]\<rparr>)],
      is_json = False, json = Inr JNull,
      form = [(ascii ''text_input'', [])]\<rparr> =
     \<lparr>text_tokens = 3, image_tokens = 0, document_tokens = 0\<rparr> \<and>
   with_text
     \<lparr>files = [(ascii ''files'', \<lparr>filename = ascii ''notes.txt'',
         content = [0x68, 0x65, 0x6C, 0x6C, 0x6F, 0x20, 0x77, 0x6F, 0x72, 0x6C, 0x64, 0x21]\<rparr>)],
      is_json = False, json = Inr JNull,
      form = [(ascii ''text_input'', [])]\<rparr>
     \<lparr>text_tokens = 3, image_tokens = 0, document_tokens = 0\<rparr> =
     Inr \<lparr>text_tokens = 3, image_tokens = 0, document_tokens = 0\<rparr> \<and>
   calculate (map char_of)
     \<lparr>files = [(ascii ''files'', \<lparr>filename = ascii ''notes.txt'',
         content = [0x68, 0x65, 0x6C, 0x6C, 0x6F, 0x20, 0x77, 0x6F, 0x72, 0x6C, 0x64, 0x21]\<rparr>)],
      is_json = False, json = Inr JNull,
      form = [(ascii ''text_input'', [])]\<rparr> =
     (Success \<lparr>res_model_id = model_id, tokens_input = 3, tokens_output = 50,
               tokens_breakdown = \<lparr>text_tokens = 3, image_tokens = 0, document_tokens = 0\<rparr>,
               cost = exact_cost 3 50,
               pricing_input = input_price_per_1k,
               pricing_output = output_price_per_1k\<rparr>, 200) \<and>
   with_text \<lparr>files = [], is_json = False, json = Inr JNull,
       form = [(ascii ''text_input'', ascii ''ab'')]\<rparr>
     \<lparr>text_tokens = 3, image_tokens = 0, document_tokens = 0\<rparr> =
     Inr \<lparr>text_tokens = 1, image_tokens = 0, document_tokens = 0\<rparr> \<and>
   \<lparr>text_tokens = 1, image_tokens = 0, document_tokens = 0\<rparr> \<noteq>
     \<lparr>text_tokens = 3, image_tokens = 0, document_tokens = 0\<rparr> \<and>
   (\<exists>t. t \<noteq> [] \<and>
      supplied_text \<lparr>files = [], is_json = False, json = Inr JNull,
        form = [(ascii ''text_input'', ascii ''ab'')]\<rparr> t)"
proof -
  let ?r = "\<lparr>files = [(ascii ''files'', \<lparr>filename = ascii ''notes.txt'',
         content = [0x68, 0x65, 0x6C, 0x6C, 0x6F, 0x20, 0x77, 0x6F, 0x72, 0x6C, 0x64, 0x21]\<rparr>)],
      is_json = False, json = Inr JNull,
      form = [(ascii ''text_input'', [])]\<rparr>"
  let ?q = "\<lparr>files = [], is_json = False, json = Inr JNull,
       form = [(ascii ''text_input'', ascii ''ab'')]\<rparr>"
  let ?bd = "\<lparr>text_tokens = 3, image_tokens = 0, document_tokens = 0\<rparr>"
  let ?bd' = "\<lparr>text_tokens = 1, image_tokens = 0, document_tokens = 0\<rparr>"
  have 6: "with_text ?q ?bd = Inr ?bd'"
    by (simp add: with_text_def dict_get_def set_text_def
        estimate_text_tokens_def strip_def ascii_def is_space_def)
  have 7: "?bd' \<noteq> ?bd"
    by simp
  from empty_text_input_keeps_text_tokens [where req = ?q and bd = ?bd and bd' = ?bd'] 6 7
  have 8: "\<exists>t. t \<noteq> [] \<and> supplied_text ?q t"
    by blast
  have 1: "supplied_text ?r []"
    by (simp add: supplied_text_def)
  have 2: "from_files (map char_of) ?r = ?bd"
    by code_simp
  from empty_text_input_keeps_text_tokens [of ?r ?bd] 1
  have 3: "with_text ?r ?bd = Inr ?bd"
    by simp
  have 4: "total_input_tokens ?bd = 3"
    by (simp add: total_input_tokens_def)
  have "respond ?bd =
     Inr (Success \<lparr>res_model_id = model_id, tokens_input = 3, tokens_output = 50,
               tokens_breakdown = ?bd, cost = exact_cost 3 50,
               pricing_input = input_price_per_1k,
               pricing_output = output_price_per_1k\<rparr>, 200)"
    using respond_value [of ?bd] by (simp add: 4)
  then have 5: "calculate (map char_of) ?r =
     (Success \<lparr>res_model_id = model_id, tokens_input = 3, tokens_output = 50,
               tokens_breakdown = ?bd, cost = exact_cost 3 50,
               pricing_input = input_price_per_1k,
               pricing_output = output_price_per_1k\<rparr>, 200)"
    using 3 by (simp add: calculate_def 2)
  from 1 2 3 5 6 7 8 show ?thesis
    by blast
qed

end
